theory Spec2Isabelle
  imports Main "HOL-Library.Multiset" "HOL-Library.Product_Lexorder"
begin

section \<open>The completion object and its snapshot readers\<close>

text \<open>
  \<^verbatim>\<open>src/bench_lockless_finished.py\<close> defines two implementations of the snapshot read of a
  \<^verbatim>\<open>concurrent.futures.Future\<close>. They read three attributes of the object:
  \<^verbatim>\<open>_state\<close> (a Python string), \<^verbatim>\<open>_result\<close> and \<^verbatim>\<open>_exception\<close> (any object, or
  \<^verbatim>\<open>None\<close>). The leading underscore of the attribute names is dropped, Python's
  \<^verbatim>\<open>None\<close> is \<open>None\<close>, and the record is left extensible so that every statement below
  covers objects that carry further attributes.
\<close>

record ('v, 'e) future =
  state :: string
  result :: "'v option"
  exception :: "'e option"

type_synonym ('v, 'e) snapshot = "bool \<times> bool \<times> 'v option \<times> 'e option"

text \<open>
  \<^verbatim>\<open>_get_snapshot_with_lock\<close> (lines 11 to 18). The function assigns no attribute; the model
  returns the tuple together with the object as the call leaves it. Entering and leaving the
  \<^verbatim>\<open>with self._condition:\<close> block is part of the interleaving model further down, where the
  exclusion mechanism is a component of the shared memory.
\<close>

definition get_snapshot_with_lock ::
  "('v, 'e, 'z) future_scheme \<Rightarrow> ('v, 'e) snapshot \<times> ('v, 'e, 'z) future_scheme" where
  "get_snapshot_with_lock self =
     (if state self = ''FINISHED'' then ((True, False, result self, exception self), self)
      else if state self \<in> {''CANCELLED'', ''CANCELLED_AND_NOTIFIED''}
        then ((True, True, None, None), self)
      else ((False, False, None, None), self))"

text \<open>\<^verbatim>\<open>_get_snapshot_lockless_finished\<close> (lines 22 to 34): the unlocked check first, then the
  same three branches as above.\<close>

definition get_snapshot_lockless_finished ::
  "('v, 'e, 'z) future_scheme \<Rightarrow> ('v, 'e) snapshot \<times> ('v, 'e, 'z) future_scheme" where
  "get_snapshot_lockless_finished self =
     (if state self = ''FINISHED'' then ((True, False, result self, exception self), self)
      else if state self = ''FINISHED'' then ((True, False, result self, exception self), self)
      else if state self \<in> {''CANCELLED'', ''CANCELLED_AND_NOTIFIED''}
        then ((True, True, None, None), self)
      else ((False, False, None, None), self))"

section \<open>Snapshot readers: results\<close>

text \<open>
  C1. For every completion object, both snapshot readers return
  \<open>(True, False, result, error)\<close> when the state is \<open>FINISHED\<close>,
  \<open>(True, True, None, None)\<close> when it is \<open>CANCELLED\<close> or \<open>CANCELLED_AND_NOTIFIED\<close>, and
  \<open>(False, False, None, None)\<close> for any other state, such as \<open>PENDING\<close> or \<open>RUNNING\<close>.
\<close>

theorem read_snapshot_by_state:
  fixes self :: "('v, 'e, 'z) future_scheme"
  shows
    "(state self = ''FINISHED'' \<longrightarrow>
        fst (get_snapshot_with_lock self) = (True, False, result self, exception self) \<and>
        fst (get_snapshot_lockless_finished self) = (True, False, result self, exception self)) \<and>
     (state self \<in> {''CANCELLED'', ''CANCELLED_AND_NOTIFIED''} \<longrightarrow>
        fst (get_snapshot_with_lock self) = (True, True, None, None) \<and>
        fst (get_snapshot_lockless_finished self) = (True, True, None, None)) \<and>
     (state self \<notin> {''FINISHED'', ''CANCELLED'', ''CANCELLED_AND_NOTIFIED''} \<longrightarrow>
        fst (get_snapshot_with_lock self) = (False, False, None, None) \<and>
        fst (get_snapshot_lockless_finished self) = (False, False, None, None))"
  by (simp add: get_snapshot_with_lock_def get_snapshot_lockless_finished_def)

theorem read_snapshot_by_state_witness:
  "fst (get_snapshot_with_lock
         \<lparr>state = ''FINISHED'', result = Some (42::int), exception = (None :: string option)\<rparr>)
     = (True, False, Some 42, None) \<and>
   fst (get_snapshot_lockless_finished
         \<lparr>state = ''CANCELLED'', result = (None :: int option), exception = (None :: string option)\<rparr>)
     = (True, True, None, None) \<and>
   fst (get_snapshot_lockless_finished
         \<lparr>state = ''PENDING'', result = (None :: int option), exception = (None :: string option)\<rparr>)
     = (False, False, None, None) \<and>
   fst (get_snapshot_with_lock
         \<lparr>state = ''RUNNING'', result = (None :: int option), exception = (None :: string option)\<rparr>)
     = (False, False, None, None)"
  using
    read_snapshot_by_state [of "\<lparr>state = ''FINISHED'', result = Some (42::int),
                                  exception = (None :: string option)\<rparr>"]
    read_snapshot_by_state [of "\<lparr>state = ''CANCELLED'', result = (None :: int option),
                                  exception = (None :: string option)\<rparr>"]
    read_snapshot_by_state [of "\<lparr>state = ''PENDING'', result = (None :: int option),
                                  exception = (None :: string option)\<rparr>"]
    read_snapshot_by_state [of "\<lparr>state = ''RUNNING'', result = (None :: int option),
                                  exception = (None :: string option)\<rparr>"]
  by simp

text \<open>
  C2. With the object held fixed during the call, the two readers return the same 4-tuple
  for every state (and leave the same object behind): the unlocked check is an optimisation
  that does not change the observable result.
\<close>

theorem lockless_same_snapshot:
  "get_snapshot_lockless_finished self = get_snapshot_with_lock self"
  by (simp add: get_snapshot_with_lock_def get_snapshot_lockless_finished_def)

section \<open>The readers step by step\<close>

text \<open>
  Modelled from the spec: the object's exclusion mechanism (\<^verbatim>\<open>self._condition\<close>, a
  \<^verbatim>\<open>threading.Condition\<close>, whose class is not under \<^verbatim>\<open>src/\<close>). The spec calls it a
  lock or condition variable that guards every field transition; \<open>held\<close> says whether some
  thread is inside it, entering is possible only when it is not held, leaving releases it.
  The memory the threads share is the object together with this mechanism.
\<close>

record ('v, 'e) shared_future = "('v, 'e) future" +
  held :: bool

text \<open>
  The program points of a reader. Each attribute read is one atomic step, so that another
  thread may run between the read of \<^verbatim>\<open>_state\<close> and the reads of \<^verbatim>\<open>_result\<close> and
  \<^verbatim>\<open>_exception\<close>. \<^verbatim>\<open>_get_snapshot_lockless_finished\<close> starts at \<open>Fast_check\<close> (line 25);
  \<^verbatim>\<open>_get_snapshot_with_lock\<close>, whose body is lines 29 to 34 word for word, starts at
  \<open>Acquire\<close>.
\<close>

datatype ('v, 'e) pc =
    Fast_check                        \<comment> \<open>line 25: read \<^verbatim>\<open>_state\<close>, compare with FINISHED\<close>
  | Fast_read_result                  \<comment> \<open>line 26: read \<^verbatim>\<open>_result\<close>\<close>
  | Fast_read_exception "'v option"   \<comment> \<open>line 26: read \<^verbatim>\<open>_exception\<close>, build the tuple\<close>
  | Acquire                           \<comment> \<open>line 29 (13): enter the with block\<close>
  | Locked_check_finished             \<comment> \<open>line 30 (14)\<close>
  | Locked_read_result                \<comment> \<open>line 31 (15): read \<^verbatim>\<open>_result\<close>\<close>
  | Locked_read_exception "'v option" \<comment> \<open>line 31 (15): read \<^verbatim>\<open>_exception\<close>\<close>
  | Locked_check_cancelled            \<comment> \<open>line 32 (16)\<close>
  | Release "('v, 'e) snapshot"       \<comment> \<open>leave the with block with the tuple to return\<close>
  | Returned "('v, 'e) snapshot"

definition lockless_entry :: "('v, 'e) pc" where
  "lockless_entry = Fast_check"

definition with_lock_entry :: "('v, 'e) pc" where
  "with_lock_entry = Acquire"

text \<open>One step of the reader on the current memory; \<open>None\<close> when it cannot move (it waits
  for the exclusion mechanism, or it has returned).\<close>

fun reader_step ::
  "('v, 'e) pc \<Rightarrow> ('v, 'e) shared_future \<Rightarrow> (('v, 'e) pc \<times> ('v, 'e) shared_future) option" where
  "reader_step Fast_check m =
     (if state m = ''FINISHED'' then Some (Fast_read_result, m) else Some (Acquire, m))"
| "reader_step Fast_read_result m = Some (Fast_read_exception (result m), m)"
| "reader_step (Fast_read_exception r) m = Some (Returned (True, False, r, exception m), m)"
| "reader_step Acquire m =
     (if held m then None else Some (Locked_check_finished, m\<lparr>held := True\<rparr>))"
| "reader_step Locked_check_finished m =
     (if state m = ''FINISHED'' then Some (Locked_read_result, m)
      else Some (Locked_check_cancelled, m))"
| "reader_step Locked_read_result m = Some (Locked_read_exception (result m), m)"
| "reader_step (Locked_read_exception r) m = Some (Release (True, False, r, exception m), m)"
| "reader_step Locked_check_cancelled m =
     (if state m \<in> {''CANCELLED'', ''CANCELLED_AND_NOTIFIED''}
      then Some (Release (True, True, None, None), m)
      else Some (Release (False, False, None, None), m))"
| "reader_step (Release t) m = Some (Returned t, m\<lparr>held := False\<rparr>)"
| "reader_step (Returned t) m = None"

text \<open>The reader is inside the with block at these program points.\<close>

fun in_block :: "('v, 'e) pc \<Rightarrow> bool" where
  "in_block Locked_check_finished = True"
| "in_block Locked_read_result = True"
| "in_block (Locked_read_exception r) = True"
| "in_block Locked_check_cancelled = True"
| "in_block (Release t) = True"
| "in_block _ = False"

text \<open>A call that runs alone: \<open>n\<close> steps of the reader, stopping where it cannot move.\<close>

fun run_alone ::
  "nat \<Rightarrow> ('v, 'e) pc \<times> ('v, 'e) shared_future \<Rightarrow> ('v, 'e) pc \<times> ('v, 'e) shared_future" where
  "run_alone 0 c = c"
| "run_alone (Suc n) (p, m) =
     (case reader_step p m of None \<Rightarrow> (p, m) | Some c \<Rightarrow> run_alone n c)"

subsection \<open>What a reader inside the with block will return\<close>

text \<open>Proof device: the tuple a reader at a program point inside the with block (or after
  its return) hands back, given the memory it sees there.\<close>


fun outcome :: "('v, 'e) pc \<Rightarrow> ('v, 'e) shared_future \<Rightarrow> ('v, 'e) snapshot" where
  "outcome Locked_check_finished m = fst (get_snapshot_with_lock m)"
| "outcome Locked_read_result m = (True, False, result m, exception m)"
| "outcome (Locked_read_exception r) m = (True, False, r, exception m)"
| "outcome Locked_check_cancelled m =
     (if state m \<in> {''CANCELLED'', ''CANCELLED_AND_NOTIFIED''}
      then (True, True, None, None) else (False, False, None, None))"
| "outcome (Release t) m = t"
| "outcome (Returned t) m = t"
| "outcome _ m = (False, False, None, None)"

fun has_returned :: "('v, 'e) pc \<Rightarrow> bool" where
  "has_returned (Returned t) = True"
| "has_returned _ = False"

lemma reader_step_in_block:
  assumes "reader_step p m = Some (p', m')" and "in_block p \<or> has_returned p"
  shows "(in_block p' \<or> has_returned p') \<and> outcome p' m' = outcome p m"
  using assms by (cases p) (auto simp: get_snapshot_with_lock_def split: if_splits)

section \<open>Snapshot readers: frame and totality\<close>

text \<open>
  C9. Both snapshot readers are pure reads: the object a call leaves behind is the object it
  was given, in its state, result and exception fields and in every other field. Step by
  step, a call that runs alone from a memory whose exclusion mechanism is free ends with
  that same memory, the mechanism released again.
\<close>

theorem snapshot_readers_change_nothing:
  "snd (get_snapshot_with_lock self) = self \<and>
   snd (get_snapshot_lockless_finished self) = self \<and>
   (\<not> held m \<longrightarrow>
      snd (run_alone 5 (with_lock_entry, m)) = m \<and>
      snd (run_alone 6 (lockless_entry, m)) = m \<and>
      fst (run_alone 5 (with_lock_entry, m)) = Returned (fst (get_snapshot_with_lock m)) \<and>
      fst (run_alone 6 (lockless_entry, m)) = Returned (fst (get_snapshot_lockless_finished m)))"
  by (simp add: with_lock_entry_def lockless_entry_def eval_nat_numeral
      get_snapshot_with_lock_def get_snapshot_lockless_finished_def)

theorem snapshot_readers_change_nothing_witness:
  "snd (get_snapshot_with_lock
         \<lparr>state = ''FINISHED'', result = Some (42::int), exception = None :: string option\<rparr>)
     = \<lparr>state = ''FINISHED'', result = Some 42, exception = None\<rparr> \<and>
   run_alone 6 (lockless_entry,
         \<lparr>state = ''CANCELLED'', result = None :: int option, exception = None :: string option,
          held = False\<rparr>)
     = (Returned (True, True, None, None),
         \<lparr>state = ''CANCELLED'', result = None, exception = None, held = False\<rparr>)"
  using
    snapshot_readers_change_nothing [of
      "\<lparr>state = ''FINISHED'', result = Some (42::int), exception = None :: string option\<rparr>"
      "\<lparr>state = ''CANCELLED'', result = None :: int option, exception = None :: string option,
        held = False\<rparr>"]
  by (simp add: prod_eq_iff get_snapshot_lockless_finished_def)

text \<open>
  C10. Both snapshot readers are total over the state field: for every state value, the
  five named ones or any other string, each returns one of the three tuples, and a state
  that is none of \<open>FINISHED\<close>, \<open>CANCELLED\<close>, \<open>CANCELLED_AND_NOTIFIED\<close> falls to the last
  branch and is reported as not done. Step by step, a call that runs alone with the exclusion
  mechanism free reaches its return within six steps.
\<close>

theorem snapshot_readers_total:
  "fst (get_snapshot_with_lock self) \<in>
     {(True, False, result self, exception self), (True, True, None, None),
      (False, False, None, None)} \<and>
   fst (get_snapshot_lockless_finished self) \<in>
     {(True, False, result self, exception self), (True, True, None, None),
      (False, False, None, None)} \<and>
   (state self \<notin> {''FINISHED'', ''CANCELLED'', ''CANCELLED_AND_NOTIFIED''} \<longrightarrow>
      fst (get_snapshot_with_lock self) = (False, False, None, None) \<and>
      fst (get_snapshot_lockless_finished self) = (False, False, None, None)) \<and>
   (\<not> held m \<longrightarrow>
      (\<exists>t. fst (run_alone 6 (with_lock_entry, m)) = Returned t) \<and>
      (\<exists>t. fst (run_alone 6 (lockless_entry, m)) = Returned t))"
  by (auto simp: with_lock_entry_def lockless_entry_def eval_nat_numeral
      get_snapshot_with_lock_def get_snapshot_lockless_finished_def)

theorem snapshot_readers_total_witness:
  "fst (get_snapshot_with_lock
         \<lparr>state = ''SOMETHING_ELSE'', result = Some (1::int), exception = Some ''e''\<rparr>)
     = (False, False, None, None) \<and>
   fst (get_snapshot_lockless_finished
         \<lparr>state = ''SOMETHING_ELSE'', result = Some (1::int), exception = Some ''e''\<rparr>)
     = (False, False, None, None) \<and>
   (\<exists>t. fst (run_alone 6 (lockless_entry,
         \<lparr>state = ''SOMETHING_ELSE'', result = Some (1::int), exception = Some ''e'',
          held = False\<rparr>)) = Returned t)"
  using
    snapshot_readers_total [of
      "\<lparr>state = ''SOMETHING_ELSE'', result = Some (1::int), exception = Some ''e''\<rparr>"
      "\<lparr>state = ''SOMETHING_ELSE'', result = Some (1::int), exception = Some ''e'',
        held = False\<rparr>"]
  by simp

section \<open>Resolving a completion object\<close>

text \<open>
  \<^verbatim>\<open>src/bench_lockless_finished.py\<close> only calls \<^verbatim>\<open>set_result\<close>, \<^verbatim>\<open>set_exception\<close>
  and \<^verbatim>\<open>cancel\<close> (lines 59 and 83 to 88); their class, \<^verbatim>\<open>concurrent.futures.Future\<close>, is
  not under \<^verbatim>\<open>src/\<close>. The operations are taken from section 4.2 of the spec. A call that
  raises returns the error as \<open>Inl\<close>, next to the object as the call leaves it.
\<close>

text \<open>Modelled from the spec: the error of a failing \<^verbatim>\<open>set_result\<close> or
  \<^verbatim>\<open>set_exception\<close>, which the spec calls a logic error that "must be reported (raised/returned
  as error)"; the exception classes of \<^verbatim>\<open>concurrent.futures\<close> are not under \<^verbatim>\<open>src/\<close>.\<close>

datatype error = InvalidStateError

text \<open>Modelled from the spec: the states that a resolution attempt finds "already terminal"
  (the state constants of \<^verbatim>\<open>concurrent.futures\<close> are not under \<^verbatim>\<open>src/\<close>). They are
  \<open>FINISHED\<close>, \<open>CANCELLED\<close> and \<open>CANCELLED_AND_NOTIFIED\<close>: the spec's Scenario D has
  \<^verbatim>\<open>set_result\<close> fail right after a successful \<^verbatim>\<open>cancel()\<close>, that is in state
  \<open>CANCELLED\<close>.\<close>

definition terminal :: "string \<Rightarrow> bool" where
  "terminal s = (s \<in> {''FINISHED'', ''CANCELLED'', ''CANCELLED_AND_NOTIFIED''})"

text \<open>Modelled from the spec: \<^verbatim>\<open>Future.set_result\<close> (not under \<^verbatim>\<open>src/\<close>), which
  "transitions to FINISHED with the given value. Fails (logic error, must not silently
  overwrite) if already in a terminal state".\<close>

definition set_result ::
  "'v option \<Rightarrow> ('v, 'e, 'z) future_scheme \<Rightarrow> (error + unit) \<times> ('v, 'e, 'z) future_scheme" where
  "set_result v self =
     (if terminal (state self) then (Inl InvalidStateError, self)
      else (Inr (), self\<lparr>result := v, state := ''FINISHED''\<rparr>))"

text \<open>Modelled from the spec: \<^verbatim>\<open>Future.set_exception\<close> (not under \<^verbatim>\<open>src/\<close>), which
  "transitions to FINISHED carrying an error payload instead of a value. Same terminality
  constraint".\<close>

definition set_exception ::
  "'e \<Rightarrow> ('v, 'e, 'z) future_scheme \<Rightarrow> (error + unit) \<times> ('v, 'e, 'z) future_scheme" where
  "set_exception e self =
     (if terminal (state self) then (Inl InvalidStateError, self)
      else (Inr (), self\<lparr>exception := Some e, state := ''FINISHED''\<rparr>))"

text \<open>Modelled from the spec: \<^verbatim>\<open>Future.cancel\<close> (not under \<^verbatim>\<open>src/\<close>), which
  "transitions PENDING/RUNNING to CANCELLED; returns whether cancellation succeeded (false if
  already terminal)".\<close>

definition cancel ::
  "('v, 'e, 'z) future_scheme \<Rightarrow> bool \<times> ('v, 'e, 'z) future_scheme" where
  "cancel self =
     (if state self \<in> {''PENDING'', ''RUNNING''} then (True, self\<lparr>state := ''CANCELLED''\<rparr>)
      else (False, self))"

text \<open>A resolution attempt, whether it succeeded, and the object after it.\<close>

datatype ('v, 'e) resolution = Set_result "'v option" | Set_exception 'e | Cancel

fun attempt ::
  "('v, 'e) resolution \<Rightarrow> ('v, 'e, 'z) future_scheme \<Rightarrow> bool \<times> ('v, 'e, 'z) future_scheme" where
  "attempt (Set_result v) self = (case set_result v self of (r, self') \<Rightarrow> (\<not> isl r, self'))"
| "attempt (Set_exception e) self = (case set_exception e self of (r, self') \<Rightarrow> (\<not> isl r, self'))"
| "attempt Cancel self = cancel self"

text \<open>A sequence of attempts on one object: the outcome of each, and the object at the end.\<close>

fun attempts ::
  "('v, 'e) resolution list \<Rightarrow> ('v, 'e, 'z) future_scheme
     \<Rightarrow> bool list \<times> ('v, 'e, 'z) future_scheme" where
  "attempts [] self = ([], self)"
| "attempts (a # as) self =
     (case attempt a self of (ok, self') \<Rightarrow>
        (case attempts as self' of (oks, self'') \<Rightarrow> (ok # oks, self'')))"

lemma attempt_terminal:
  "terminal (state self) \<Longrightarrow> attempt a self = (False, self)"
  by (cases a) (auto simp: set_result_def set_exception_def cancel_def terminal_def)

lemma attempt_success_terminal:
  "attempt a self = (True, self') \<Longrightarrow> terminal (state self')"
  by (cases a)
    (auto simp: set_result_def set_exception_def cancel_def terminal_def split: if_splits)

lemma attempts_terminal:
  "terminal (state self) \<Longrightarrow> attempts as self = (replicate (length as) False, self)"
  by (induction as) (simp_all add: attempt_terminal)

lemma attempts_at_most_one:
  "length (filter id (fst (attempts as self))) \<le> 1"
proof (induction as arbitrary: self)
  case Nil
  show ?case by simp
next
  case (Cons a as)
  obtain ok self' where a: "attempt a self = (ok, self')" by (cases "attempt a self")
  show ?case
  proof (cases ok)
    case True
    with a have "terminal (state self')" by (simp add: attempt_success_terminal)
    then show ?thesis using a by (simp add: attempts_terminal)
  next
    case False
    with a Cons.IH [of self'] show ?thesis by (cases "attempts as self'") simp
  qed
qed

text \<open>
  C5. At most one of \<^verbatim>\<open>set_result\<close>, \<^verbatim>\<open>set_exception\<close>, \<^verbatim>\<open>cancel\<close> ever succeeds on a
  completion object: in every sequence of attempts at most one is successful. On an object
  that is already terminal, \<^verbatim>\<open>set_result\<close> and \<^verbatim>\<open>set_exception\<close> report an error,
  \<^verbatim>\<open>cancel\<close> returns \<open>False\<close>, and each leaves the object (state, result and error) as it
  was.
\<close>

theorem single_resolution:
  "length (filter id (fst (attempts as self))) \<le> 1 \<and>
   (terminal (state self) \<longrightarrow>
      set_result v self = (Inl InvalidStateError, self) \<and>
      set_exception e self = (Inl InvalidStateError, self) \<and>
      cancel self = (False, self) \<and>
      attempts as self = (replicate (length as) False, self))"
  using attempts_at_most_one [of as self] attempts_terminal [of self as]
  by (simp add: set_result_def set_exception_def cancel_def terminal_def)

theorem single_resolution_witness:
  "attempts [Set_result (Some 42), Set_result (Some 99), Cancel, Set_exception ''boom'']
     \<lparr>state = ''PENDING'', result = None :: int option, exception = None :: string option\<rparr>
     = ([True, False, False, False],
        \<lparr>state = ''FINISHED'', result = Some 42, exception = None\<rparr>) \<and>
   terminal (state \<lparr>state = ''FINISHED'', result = Some (42::int),
                    exception = None :: string option\<rparr>) \<and>
   set_result (Some 99)
     \<lparr>state = ''FINISHED'', result = Some (42::int), exception = None :: string option\<rparr>
     = (Inl InvalidStateError, \<lparr>state = ''FINISHED'', result = Some 42, exception = None\<rparr>) \<and>
   cancel \<lparr>state = ''FINISHED'', result = Some (42::int), exception = None :: string option\<rparr>
     = (False, \<lparr>state = ''FINISHED'', result = Some 42, exception = None\<rparr>)"
  using
    single_resolution [of
      "[Set_result (Some 42), Set_result (Some 99), Cancel, Set_exception ''boom'']"
      "\<lparr>state = ''PENDING'', result = None :: int option, exception = None :: string option\<rparr>"]
    single_resolution [of "[]"
      "\<lparr>state = ''FINISHED'', result = Some (42::int), exception = None :: string option\<rparr>"
      "Some 99" "''boom''"]
  by (simp add: set_result_def set_exception_def cancel_def terminal_def)

section \<open>The binary heap under the scheduler\<close>

text \<open>
  \<^verbatim>\<open>src/bench/timer_handle_heap.py\<close> calls \<^verbatim>\<open>heapq.heappush\<close> and \<^verbatim>\<open>heapq.heappop\<close> on
  the Python list \<^verbatim>\<open>scheduled\<close> (lines 25, 28, 38 and 41); the module \<^verbatim>\<open>heapq\<close> is not
  under \<^verbatim>\<open>src/\<close>. The spec (section 4.1) says that handles are inserted "into a binary
  min-heap" and that popping "removes the minimum-deadline handle". The model is the binary
  min-heap laid out in a list, the children of position \<open>i\<close> at \<open>2 i + 1\<close> and \<open>2 i + 2\<close>,
  with the two sifting procedures written out. Items are compared with their own \<^verbatim>\<open><\<close>
  only, which the functions take as \<open>lt\<close>.
\<close>

text \<open>
  Modelled from the spec: the loop of \<^verbatim>\<open>heapq._siftdown\<close> (not under \<^verbatim>\<open>src/\<close>), the
  insertion step of the spec's binary min-heap. The item that was at \<open>pos\<close> is carried in
  \<open>newitem\<close> while the parents that are larger move down one level; \<open>newitem\<close> is written
  where the loop stops. The loop decreases \<open>pos\<close>.
\<close>

function siftdown_loop :: "('a \<Rightarrow> 'a \<Rightarrow> bool) \<Rightarrow> 'a list \<Rightarrow> nat \<Rightarrow> nat \<Rightarrow> 'a \<Rightarrow> 'a list" where
  "siftdown_loop lt heap startpos pos newitem =
     (if pos > startpos then
        (let parentpos = (pos - 1) div 2;
             parent = heap ! parentpos
         in if lt newitem parent
            then siftdown_loop lt (heap[pos := parent]) startpos parentpos newitem
            else heap[pos := newitem])
      else heap[pos := newitem])"
  by pat_completeness auto
termination
  by (relation "measure (\<lambda>(lt, heap, startpos, pos, newitem). pos)") auto

declare siftdown_loop.simps [simp del]

text \<open>Modelled from the spec: \<^verbatim>\<open>heapq._siftdown(heap, startpos, pos)\<close> (not under
  \<^verbatim>\<open>src/\<close>): the loop above, started with the item at \<open>pos\<close>.\<close>

definition siftdown :: "('a \<Rightarrow> 'a \<Rightarrow> bool) \<Rightarrow> 'a list \<Rightarrow> nat \<Rightarrow> nat \<Rightarrow> 'a list" where
  "siftdown lt heap startpos pos = siftdown_loop lt heap startpos pos (heap ! pos)"

text \<open>
  Modelled from the spec: the loop of \<^verbatim>\<open>heapq._siftup\<close> (not under \<^verbatim>\<open>src/\<close>), the
  removal step of the spec's binary min-heap. The smaller child moves up one level until a
  leaf is reached; the loop returns the list and the position of that leaf.
\<close>

function siftup_loop :: "('a \<Rightarrow> 'a \<Rightarrow> bool) \<Rightarrow> 'a list \<Rightarrow> nat \<Rightarrow> nat \<Rightarrow> nat \<Rightarrow> 'a list \<times> nat" where
  "siftup_loop lt heap endpos pos childpos =
     (if childpos < endpos then
        (let rightpos = childpos + 1;
             childpos = (if rightpos < endpos \<and> \<not> lt (heap ! childpos) (heap ! rightpos)
                         then rightpos else childpos)
         in siftup_loop lt (heap[pos := heap ! childpos]) endpos childpos (2 * childpos + 1))
      else (heap, pos))"
  by pat_completeness auto
termination
  by (relation "measure (\<lambda>(lt, heap, endpos, pos, childpos). endpos - childpos)") auto

declare siftup_loop.simps [simp del]

text \<open>Modelled from the spec: \<^verbatim>\<open>heapq._siftup(heap, pos)\<close> (not under \<^verbatim>\<open>src/\<close>): the
  loop above, then the item taken out at \<open>pos\<close> is written at the leaf and sifted towards the
  root with \<^verbatim>\<open>_siftdown\<close>.\<close>

definition siftup :: "('a \<Rightarrow> 'a \<Rightarrow> bool) \<Rightarrow> 'a list \<Rightarrow> nat \<Rightarrow> 'a list" where
  "siftup lt heap pos =
     (let endpos = length heap;
          startpos = pos;
          newitem = heap ! pos
      in case siftup_loop lt heap endpos pos (2 * pos + 1) of
           (heap', pos') \<Rightarrow> siftdown lt (heap'[pos' := newitem]) startpos pos')"

text \<open>Modelled from the spec: \<^verbatim>\<open>heapq.heappush(heap, item)\<close> (not under \<^verbatim>\<open>src/\<close>),
  the insertion into the spec's binary min-heap: append, then sift the new last item towards
  the root.\<close>

definition heappush :: "('a \<Rightarrow> 'a \<Rightarrow> bool) \<Rightarrow> 'a list \<Rightarrow> 'a \<Rightarrow> 'a list" where
  "heappush lt heap item = siftdown lt (heap @ [item]) 0 (length (heap @ [item]) - 1)"

text \<open>
  Modelled from the spec: \<^verbatim>\<open>heapq.heappop(heap)\<close> (not under \<^verbatim>\<open>src/\<close>), the removal of
  the minimum from the spec's binary min-heap: take the last item off the list; if the list
  is now empty that item is the result, otherwise the result is the item at position 0, which
  the last item replaces before it is sifted. On an empty list \<^verbatim>\<open>heap.pop()\<close> raises
  \<^verbatim>\<open>IndexError\<close>: \<open>None\<close>.
\<close>

definition heappop :: "('a \<Rightarrow> 'a \<Rightarrow> bool) \<Rightarrow> 'a list \<Rightarrow> ('a \<times> 'a list) option" where
  "heappop lt heap =
     (if heap = [] then None
      else (let lastelt = last heap; heap = butlast heap
            in if heap \<noteq> [] then Some (heap ! 0, siftup lt (heap[0 := lastelt]) 0)
               else Some (lastelt, heap)))"

subsection \<open>The heap invariant\<close>

text \<open>
  The invariants are stated for a key \<open>k\<close> into a linear order that \<open>lt\<close> compares:
  \<open>is_heap\<close> is the heap property, \<open>heap_except\<close> allows the item at \<open>p\<close> to be smaller than
  its parent (while an item is sifted towards the root), \<open>heap_hole\<close> leaves the item at \<open>p\<close>
  out altogether (while the smaller children move up).
\<close>

definition is_heap :: "('a \<Rightarrow> 'k::linorder) \<Rightarrow> 'a list \<Rightarrow> bool" where
  "is_heap k h = (\<forall>i < length h. 0 < i \<longrightarrow> k (h ! ((i - 1) div 2)) \<le> k (h ! i))"

definition heap_except :: "('a \<Rightarrow> 'k::linorder) \<Rightarrow> 'a list \<Rightarrow> nat \<Rightarrow> bool" where
  "heap_except k h p =
     ((\<forall>i < length h. 0 < i \<longrightarrow> i \<noteq> p \<longrightarrow> k (h ! ((i - 1) div 2)) \<le> k (h ! i)) \<and>
      (\<forall>i < length h. 0 < i \<longrightarrow> 0 < p \<longrightarrow> (i - 1) div 2 = p \<longrightarrow>
           k (h ! ((p - 1) div 2)) \<le> k (h ! i)))"

definition heap_hole :: "('a \<Rightarrow> 'k::linorder) \<Rightarrow> 'a list \<Rightarrow> nat \<Rightarrow> bool" where
  "heap_hole k h p =
     ((\<forall>i < length h. 0 < i \<longrightarrow> i \<noteq> p \<longrightarrow> (i - 1) div 2 \<noteq> p \<longrightarrow>
           k (h ! ((i - 1) div 2)) \<le> k (h ! i)) \<and>
      (\<forall>i < length h. 0 < i \<longrightarrow> 0 < p \<longrightarrow> (i - 1) div 2 = p \<longrightarrow>
           k (h ! ((p - 1) div 2)) \<le> k (h ! i)))"

lemma length_siftdown_loop [simp]:
  "length (siftdown_loop lt h s pos x) = length h"
  by (induction lt h s pos x rule: siftdown_loop.induct)
     (subst siftdown_loop.simps, simp add: Let_def del: siftdown_loop.simps)

lemma length_siftup_loop [simp]:
  "length (fst (siftup_loop lt h e pos c)) = length h"
  by (induction lt h e pos c rule: siftup_loop.induct)
     (subst siftup_loop.simps, simp add: Let_def del: siftup_loop.simps)

lemma parent_less: "0 < (i::nat) \<Longrightarrow> (i - 1) div 2 < i"
  by arith

lemma siftdown_loop_heap:
  assumes lt: "\<And>a b. lt a b = (k a < k b)"
  shows "pos < length h \<Longrightarrow> heap_except k (h[pos := x]) pos \<Longrightarrow>
         is_heap k (siftdown_loop lt h 0 pos x)"
  using lt
proof (induction lt h "0::nat" pos x rule: siftdown_loop.induct)
  case (1 lt h pos x)
  let ?pp = "(pos - 1) div 2"
  let ?E = "h[pos := x]"
  note lt = "1.prems"(3)
  from "1.prems"(2)
  have A: "\<And>i. i < length h \<Longrightarrow> 0 < i \<Longrightarrow> i \<noteq> pos \<Longrightarrow> k (?E ! ((i - 1) div 2)) \<le> k (?E ! i)"
    and B: "\<And>i. i < length h \<Longrightarrow> 0 < i \<Longrightarrow> 0 < pos \<Longrightarrow> (i - 1) div 2 = pos \<Longrightarrow>
                k (?E ! ?pp) \<le> k (?E ! i)"
    by (auto simp: heap_except_def)
  show ?case
  proof (cases "0 < pos \<and> lt x (h ! ?pp)")
    case True
    then have pp: "?pp < pos" and pos: "0 < pos" and less: "k x < k (h ! ?pp)"
      by (auto simp: lt)
    let ?h' = "h[pos := h ! ?pp]"
    let ?H = "?h'[?pp := x]"
    have H: "\<And>j. j < length h \<Longrightarrow>
               ?H ! j = (if j = ?pp then x else if j = pos then h ! ?pp else h ! j)"
      using pp "1.prems"(1) by (simp add: nth_list_update)
    have E: "\<And>j. j < length h \<Longrightarrow> ?E ! j = (if j = pos then x else h ! j)"
      by (simp add: nth_list_update)
    have "heap_except k ?H ?pp"
      unfolding heap_except_def
    proof (intro conjI allI impI)
      fix i assume i: "i < length ?H" "0 < i" "i \<noteq> ?pp"
      then have il: "i < length h" and pl: "(i - 1) div 2 < length h" by auto
      show "k (?H ! ((i - 1) div 2)) \<le> k (?H ! i)"
      proof (cases "i = pos")
        case True
        with less pp "1.prems"(1) show ?thesis by (simp add: H)
      next
        case False
        note ip = this
        consider "(i - 1) div 2 = ?pp" | "(i - 1) div 2 = pos" 
          | "(i - 1) div 2 \<noteq> ?pp" "(i - 1) div 2 \<noteq> pos" by blast
        then show ?thesis
        proof cases
          case 1
          with A [OF il i(2) ip] less pp il pl i(3) ip show ?thesis
            by (simp add: H E)
        next
          case 2
          with B [OF il i(2) pos] pp il pl i(3) ip show ?thesis
            by (simp add: H E)
        next
          case 3
          with A [OF il i(2) ip] pp il pl i(3) ip show ?thesis
            by (simp add: H E)
        qed
      qed
    next
      fix i assume i: "i < length ?H" "0 < i" "0 < ?pp" "(i - 1) div 2 = ?pp"
      then have il: "i < length h" by auto
      have ppl: "?pp < length h" using pp "1.prems"(1) by simp
      have gl: "(?pp - 1) div 2 < ?pp" using i(3) by arith
      have g: "k (h ! ((?pp - 1) div 2)) \<le> k (h ! ?pp)"
        using A [OF ppl i(3)] pp gl ppl by (simp add: E)
      show "k (?H ! ((?pp - 1) div 2)) \<le> k (?H ! i)"
      proof (cases "i = pos")
        case True
        with g pp gl ppl "1.prems"(1) show ?thesis by (simp add: H)
      next
        case False
        moreover have "i \<noteq> ?pp" using i(2,4) by arith
        ultimately show ?thesis
          using A [OF il i(2) False] g pp gl ppl il i(4) by (simp add: H E)
      qed
    qed
    with True pp "1.prems"(1) lt
    have "is_heap k (siftdown_loop lt ?h' 0 ?pp x)"
      by (intro "1.hyps") auto
    with True show ?thesis
      by (subst siftdown_loop.simps) (simp add: Let_def del: siftdown_loop.simps)
  next
    case False
    have "is_heap k ?E"
      unfolding is_heap_def
    proof (intro allI impI)
      fix i assume i: "i < length ?E" "0 < i"
      show "k (?E ! ((i - 1) div 2)) \<le> k (?E ! i)"
      proof (cases "i = pos")
        case True
        with False i have "\<not> k x < k (h ! ?pp)" by (simp add: lt)
        moreover have "?pp < pos" using True i by arith
        ultimately show ?thesis using True "1.prems"(1) by (simp add: nth_list_update)
      next
        case False
        with A [of i] i show ?thesis by simp
      qed
    qed
    with False show ?thesis
      by (subst siftdown_loop.simps) (auto simp: Let_def simp del: siftdown_loop.simps)
  qed
qed

lemma mset_move:
  assumes "i < length h" "j < length h" "i \<noteq> j"
  shows "mset (h[i := h ! j, j := x]) = mset (h[i := x])"
proof -
  let ?E = "h[i := x]"
  have "mset (?E[i := ?E ! j, j := ?E ! i]) = mset ?E"
    using assms by (intro mset_swap) auto
  with assms show ?thesis by simp
qed

lemma siftdown_loop_mset:
  "pos < length h \<Longrightarrow> mset (siftdown_loop lt h s pos x) = mset (h[pos := x])"
proof (induction lt h s pos x rule: siftdown_loop.induct)
  case (1 lt h s pos x)
  let ?pp = "(pos - 1) div 2"
  show ?case
  proof (cases "s < pos \<and> lt x (h ! ?pp)")
    case True
    then have pp: "?pp < pos" by arith
    with True "1.prems" have "mset (siftdown_loop lt (h[pos := h ! ?pp]) s ?pp x)
         = mset (h[pos := h ! ?pp, ?pp := x])"
      by (intro "1.IH") auto
    also have "\<dots> = mset (h[pos := x])"
      using pp "1.prems" by (intro mset_move) auto
    finally show ?thesis using True
      by (subst siftdown_loop.simps) (simp add: Let_def del: siftdown_loop.simps)
  next
    case False
    then show ?thesis
      by (subst siftdown_loop.simps) (auto simp: Let_def simp del: siftdown_loop.simps)
  qed
qed

lemma heappush_heap:
  assumes lt: "\<And>a b. lt a b = (k a < k b)" and h: "is_heap k h"
  shows "is_heap k (heappush lt h x)"
proof -
  let ?h = "h @ [x]"
  have "heap_except k (?h[length h := x]) (length h)"
    unfolding heap_except_def
  proof (intro conjI allI impI)
    fix i assume i: "i < length (?h[length h := x])" "0 < i" "i \<noteq> length h"
    then have "i < length h" "(i - 1) div 2 < length h" by auto
    with h i show "k (?h[length h := x] ! ((i - 1) div 2)) \<le> k (?h[length h := x] ! i)"
      by (simp add: is_heap_def nth_append)
  next
    fix i assume i: "i < length (?h[length h := x])" "0 < i" "(i - 1) div 2 = length h"
    then have False by (simp add: less_Suc_eq) arith
    then show "k (?h[length h := x] ! ((length h - 1) div 2)) \<le> k (?h[length h := x] ! i)" ..
  qed
  then have "is_heap k (siftdown_loop lt ?h 0 (length h) x)"
    using lt by (intro siftdown_loop_heap) auto
  then show ?thesis by (simp add: heappush_def siftdown_def)
qed

lemma heappush_mset: "mset (heappush lt h x) = add_mset x (mset h)"
  by (simp add: heappush_def siftdown_def siftdown_loop_mset)

lemma length_heappush [simp]: "length (heappush lt h x) = Suc (length h)"
  by (simp add: heappush_def siftdown_def)

lemma is_heap_min:
  assumes "is_heap k h" "i < length h"
  shows "k (h ! 0) \<le> k (h ! i)"
  using assms(2)
proof (induction i rule: less_induct)
  case (less i)
  show ?case
  proof (cases "i = 0")
    case True then show ?thesis by simp
  next
    case False
    then have p: "(i - 1) div 2 < i" by arith
    with less have "k (h ! 0) \<le> k (h ! ((i - 1) div 2))" by simp
    also have "\<dots> \<le> k (h ! i)" using assms(1) less.prems False by (simp add: is_heap_def)
    finally show ?thesis .
  qed
qed

lemma is_heap_butlast: "is_heap k h \<Longrightarrow> is_heap k (butlast h)"
  unfolding is_heap_def
proof (intro allI impI)
  fix i assume h: "\<forall>i<length h. 0 < i \<longrightarrow> k (h ! ((i - 1) div 2)) \<le> k (h ! i)"
    and i: "i < length (butlast h)" "0 < i"
  then have "(i - 1) div 2 < length (butlast h)" by simp
  with h i show "k (butlast h ! ((i - 1) div 2)) \<le> k (butlast h ! i)"
    by (simp add: nth_butlast)
qed

lemma siftup_loop_props:
  assumes lt: "\<And>a b. lt a b = (k a < k b)"
  shows "pos < length h \<Longrightarrow> e = length h \<Longrightarrow> c = 2 * pos + 1 \<Longrightarrow> heap_hole k h pos \<Longrightarrow>
         siftup_loop lt h e pos c = (h', pos') \<Longrightarrow>
         pos' < length h \<and> length h' = length h \<and> length h \<le> 2 * pos' + 1 \<and>
         heap_hole k h' pos' \<and> (\<forall>x. mset (h'[pos' := x]) = mset (h[pos := x]))"
  using lt
proof (induction lt h e pos c arbitrary: h' pos' rule: siftup_loop.induct)
  case (1 lt h e pos c)
  note lt = "1.prems"(6)
  show ?case
  proof (cases "c < e")
    case False
    with "1.prems"(5) have "h' = h" "pos' = pos"
      by (simp_all add: siftup_loop.simps [of lt h e pos c])
    with False "1.prems" show ?thesis by simp
  next
    case True
    define c' where "c' = (if c + 1 < e \<and> \<not> lt (h ! c) (h ! (c + 1)) then c + 1 else c)"
    let ?h1 = "h[pos := h ! c']"
    have c'l: "c' < length h" and c'p: "(c' - 1) div 2 = pos" and pc': "pos < c'" and c'0: "0 < c'"
      using True "1.prems"(2,3) by (auto simp: c'_def)
    have c'cases: "c' = 2 * pos + 1 \<or> c' = 2 * pos + 2"
      using "1.prems"(3) by (auto simp: c'_def)
    have small: "\<And>i. i < length h \<Longrightarrow> 0 < i \<Longrightarrow> (i - 1) div 2 = pos \<Longrightarrow> k (h ! c') \<le> k (h ! i)"
    proof -
      fix i assume i: "i < length h" "0 < i" "(i - 1) div 2 = pos"
      then have "i = c \<or> i = c + 1" using "1.prems"(3) by arith
      then show "k (h ! c') \<le> k (h ! i)"
        using i(1) "1.prems"(2) by (auto simp: c'_def lt)
    qed
    from "1.prems"(4)
    have A: "\<And>i. i < length h \<Longrightarrow> 0 < i \<Longrightarrow> i \<noteq> pos \<Longrightarrow> (i - 1) div 2 \<noteq> pos \<Longrightarrow>
                k (h ! ((i - 1) div 2)) \<le> k (h ! i)"
      and B: "\<And>i. i < length h \<Longrightarrow> 0 < i \<Longrightarrow> 0 < pos \<Longrightarrow> (i - 1) div 2 = pos \<Longrightarrow>
                k (h ! ((pos - 1) div 2)) \<le> k (h ! i)"
      by (auto simp: heap_hole_def)
    have H: "\<And>j. j < length h \<Longrightarrow> ?h1 ! j = (if j = pos then h ! c' else h ! j)"
      by (simp add: nth_list_update)
    have hole: "heap_hole k ?h1 c'"
      unfolding heap_hole_def
    proof (intro conjI allI impI)
      fix i assume i: "i < length ?h1" "0 < i" "i \<noteq> c'" "(i - 1) div 2 \<noteq> c'"
      then have il: "i < length h" and pl: "(i - 1) div 2 < length h" by auto
      show "k (?h1 ! ((i - 1) div 2)) \<le> k (?h1 ! i)"
      proof (cases "i = pos")
        case True
        then have "(i - 1) div 2 \<noteq> pos" using i(2) by arith
        with True B [OF c'l c'0 _ c'p] i(2) il pl show ?thesis by (simp add: H)
      next
        case False
        show ?thesis
        proof (cases "(i - 1) div 2 = pos")
          case True
          with small [OF il i(2)] False il pl show ?thesis by (simp add: H)
        next
          case F2: False
          with A [OF il i(2) False] False il pl show ?thesis by (simp add: H)
        qed
      qed
    next
      fix i assume i: "i < length ?h1" "0 < i" "0 < c'" "(i - 1) div 2 = c'"
      then have il: "i < length h" and ip: "i \<noteq> pos" and ic: "c' < i" using pc' by auto
      have "k (h ! ((i - 1) div 2)) \<le> k (h ! i)"
        using A [OF il i(2) ip] i(4) pc' by simp
      with i(4) c'p ip il "1.prems"(1) show "k (?h1 ! ((c' - 1) div 2)) \<le> k (?h1 ! i)"
        by (simp add: H)
    qed
    have "siftup_loop lt h e pos c = siftup_loop lt ?h1 e c' (2 * c' + 1)"
      using True unfolding c'_def
      by (simp add: siftup_loop.simps [of lt h e pos c] Let_def)
    with "1.prems"(5) have rec: "siftup_loop lt ?h1 e c' (2 * c' + 1) = (h', pos')"
      by simp
    have IH: "pos' < length ?h1 \<and> length h' = length ?h1 \<and> length ?h1 \<le> 2 * pos' + 1 \<and>
         heap_hole k h' pos' \<and> (\<forall>x. mset (h'[pos' := x]) = mset (?h1[c' := x]))"
      using True c'l hole rec "1.prems"(2) unfolding c'_def
      by (intro "1.IH" [OF True refl refl] lt) auto
    have "\<forall>x. mset (?h1[c' := x]) = mset (h[pos := x])"
      using c'l pc' "1.prems"(1) by (auto intro!: mset_move)
    with IH show ?thesis by simp
  qed
qed

lemma siftup_heap:
  assumes lt: "\<And>a b. lt a b = (k a < k b)" and h: "h \<noteq> []" "heap_hole k h 0"
  shows "is_heap k (siftup lt h 0) \<and> mset (siftup lt h 0) = mset h
         \<and> length (siftup lt h 0) = length h"
proof -
  obtain h' pos' where s: "siftup_loop lt h (length h) 0 (2 * 0 + 1) = (h', pos')"
    by (cases "siftup_loop lt h (length h) 0 (2 * 0 + 1)")
  let ?x = "h ! 0"
  from h have "0 < length h" by simp
  from siftup_loop_props [OF lt this refl refl h(2) s]
  have p: "pos' < length h" "length h' = length h" "length h \<le> 2 * pos' + 1"
      "heap_hole k h' pos'" "mset (h'[pos' := ?x]) = mset (h[0 := ?x])"
    by auto
  let ?E = "h'[pos' := ?x]"
  have "heap_except k ?E pos'"
    unfolding heap_except_def
  proof (intro conjI allI impI)
    fix i assume i: "i < length ?E" "0 < i" "i \<noteq> pos'"
    then have "(i - 1) div 2 \<noteq> pos'" using p(2,3) by auto
    with p(4) i show "k (?E ! ((i - 1) div 2)) \<le> k (?E ! i)"
      by (simp add: heap_hole_def)
  next
    fix i assume i: "i < length ?E" "0 < i" "(i - 1) div 2 = pos'"
    then have False using p(2,3) by auto
    then show "k (?E ! ((pos' - 1) div 2)) \<le> k (?E ! i)" ..
  qed
  then have "heap_except k (?E[pos' := ?x]) pos'" by simp
  then have "is_heap k (siftdown_loop lt ?E 0 pos' ?x)"
    using lt p(1,2) by (intro siftdown_loop_heap) auto
  moreover have "mset (siftdown_loop lt ?E 0 pos' ?x) = mset h"
    using p by (simp add: siftdown_loop_mset)
  moreover have "siftup lt h 0 = siftdown_loop lt ?E 0 pos' ?x"
    using s p(1,2) by (simp add: siftup_def siftdown_def Let_def)
  ultimately show ?thesis using p(2) by simp
qed

lemma heappop_empty: "heappop lt [] = None"
  by (simp add: heappop_def)

lemma heappop_props:
  assumes lt: "\<And>a b. lt a b = (k a < k b)" and h: "h \<noteq> []" "is_heap k h"
  shows "\<exists>rest. heappop lt h = Some (h ! 0, rest) \<and> is_heap k rest \<and>
           mset h = add_mset (h ! 0) (mset rest) \<and> Suc (length rest) = length h"
proof (cases "butlast h = []")
  case True
  with h(1) have "h = [last h]" by (metis append_butlast_last_id append_Nil)
  then obtain x where x: "h = [x]" ..
  then show ?thesis by (simp add: heappop_def is_heap_def)
next
  case False
  let ?b = "butlast h"
  let ?h0 = "?b[0 := last h]"
  have hb: "h = ?b @ [last h]" using h(1) by simp
  from False have "0 < length ?b" using length_greater_0_conv [of ?b] by blast
  then have b0: "?b ! 0 = h ! 0" by (rule nth_butlast)
  have "is_heap k ?b" using h(2) by (rule is_heap_butlast)
  then have "heap_hole k ?h0 0"
    unfolding heap_hole_def is_heap_def by auto
  with False have s: "is_heap k (siftup lt ?h0 0)" "mset (siftup lt ?h0 0) = mset ?h0"
     "length (siftup lt ?h0 0) = length ?h0"
    using siftup_heap [OF lt, of ?h0] by auto
  have hm: "mset h = add_mset (last h) (mset ?b)" by (subst hb) simp
  have "?b ! 0 \<in> set ?b" using \<open>0 < length ?b\<close> by (rule nth_mem)
  then have "?b ! 0 \<in># mset ?b" by simp
  then have "add_mset (?b ! 0) (mset ?b - {#?b ! 0#}) = mset ?b" by (rule insert_DiffM)
  moreover have "mset ?h0 = add_mset (last h) (mset ?b - {#?b ! 0#})"
    using \<open>0 < length ?b\<close> by (rule mset_update)
  ultimately have "mset h = add_mset (h ! 0) (mset ?h0)"
    using hm b0 by simp
  with s False h(1) show ?thesis
    by (simp add: heappop_def Let_def b0)
qed

lemma length_siftup [simp]: "length (siftup lt h pos) = length h"
proof -
  obtain h' p' where s: "siftup_loop lt h (length h) pos (2 * pos + 1) = (h', p')"
    by (cases "siftup_loop lt h (length h) pos (2 * pos + 1)")
  then have "length h' = length h"
    using length_siftup_loop [of lt h "length h" pos "2 * pos + 1"] by simp
  with s show ?thesis by (simp add: siftup_def siftdown_def Let_def)
qed

lemma heappop_length:
  "heappop lt h = Some (x, rest) \<Longrightarrow> Suc (length rest) = length h"
  by (cases h rule: rev_cases) (auto simp: heappop_def Let_def split: if_splits)

lemma heappop_nonempty:
  "h \<noteq> [] \<Longrightarrow> \<exists>rest. heappop lt h = Some (h ! 0, rest)"
proof (cases "butlast h = []")
  case True
  assume "h \<noteq> []"
  with True have "h = [last h]" by (metis append_butlast_last_id append_Nil)
  then obtain x where "h = [x]" ..
  then show ?thesis by (simp add: heappop_def)
next
  case False
  assume "h \<noteq> []"
  from False have "0 < length (butlast h)" using length_greater_0_conv [of "butlast h"] by blast
  then have "butlast h ! 0 = h ! 0" by (rule nth_butlast)
  with False \<open>h \<noteq> []\<close> show ?thesis by (simp add: heappop_def Let_def)
qed

text \<open>
  The loop of lines 40 and 41 (27 and 28), \<^verbatim>\<open>while scheduled: handle = heapq.heappop(scheduled)\<close>;
  the model returns the handles in the order in which the loop binds them.
\<close>

function pop_all :: "('a \<Rightarrow> 'a \<Rightarrow> bool) \<Rightarrow> 'a list \<Rightarrow> 'a list" where
  "pop_all lt scheduled =
     (if scheduled = [] then []
      else (case heappop lt scheduled of
              None \<Rightarrow> []
            | Some (handle, rest) \<Rightarrow> handle # pop_all lt rest))"
  by pat_completeness auto
termination
  by (relation "measure (\<lambda>(lt, scheduled). length scheduled)")
     (auto dest: heappop_length)

declare pop_all.simps [simp del]

lemma pop_all_Nil [simp]: "pop_all lt [] = []"
  by (simp add: pop_all.simps)

lemma pop_all_heap:
  assumes lt: "\<And>a b. lt a b = (k a < k b)"
  shows "is_heap k h \<Longrightarrow> sorted (map k (pop_all lt h)) \<and> mset (pop_all lt h) = mset h"
proof (induction h rule: length_induct)
  case (1 h)
  show ?case
  proof (cases "h = []")
    case True then show ?thesis by simp
  next
    case False
    from heappop_props [OF lt False "1.prems"] obtain rest where
      r: "heappop lt h = Some (h ! 0, rest)" "is_heap k rest"
         "mset h = add_mset (h ! 0) (mset rest)" "Suc (length rest) = length h"
      by blast
    then have IH: "sorted (map k (pop_all lt rest))" "mset (pop_all lt rest) = mset rest"
      using "1.IH" by auto
    have p: "pop_all lt h = h ! 0 # pop_all lt rest"
      using False r(1) by (simp add: pop_all.simps [of lt h])
    have "\<forall>y \<in> set (pop_all lt rest). k (h ! 0) \<le> k y"
    proof
      fix y assume "y \<in> set (pop_all lt rest)"
      then have "y \<in># mset rest" using IH(2) by (metis set_mset_mset)
      then have "y \<in> set h" using r(3) by (metis set_mset_mset union_single_eq_member insert_iff set_mset_add_mset_insert)
      then obtain i where "i < length h" "h ! i = y" by (auto simp: in_set_conv_nth)
      with is_heap_min [OF "1.prems", of i] show "k (h ! 0) \<le> k y" by simp
    qed
    with IH r(3) p show ?thesis by simp
  qed
qed

section \<open>Timer handles and the deadline heap scheduler\<close>

text \<open>
  Modelled from the spec: the timer handle (\<^verbatim>\<open>asyncio.TimerHandle\<close>, which
  \<^verbatim>\<open>src/bench/timer_handle_heap.py\<close> constructs at lines 24 and 37; its class is not under
  \<^verbatim>\<open>src/\<close>). The spec (section 3): a handle has an absolute deadline, an opaque callback, "a
  monotonically increasing insertion sequence number (tie-breaker)" and a cancelled flag, and
  handles are in "total order by (deadline, sequence number)". Deadlines are values of any
  linear order. The cancelled flag is mutable and shared between the caller who holds the
  handle and the heap that stores it; it is kept in the scheduler's store below, addressed
  by the sequence number, which identifies the handle.
\<close>

record ('t, 'c) timer_handle =
  deadline :: 't
  callback :: 'c
  seqno :: nat

text \<open>Modelled from the spec: the handle's own \<^verbatim>\<open><\<close> (\<^verbatim>\<open>TimerHandle.__lt__\<close>, not under
  \<^verbatim>\<open>src/\<close>): "the chosen representation must make the handle itself directly orderable by
  (deadline, sequence number)".\<close>

definition handle_lt :: "('t::linorder, 'c) timer_handle \<Rightarrow> ('t, 'c) timer_handle \<Rightarrow> bool" where
  "handle_lt a b =
     (deadline a < deadline b \<or> (deadline a = deadline b \<and> seqno a < seqno b))"

text \<open>The pair a handle is ordered by, in the lexicographic order of pairs.\<close>

definition handle_key :: "('t, 'c) timer_handle \<Rightarrow> 't \<times> nat" where
  "handle_key h = (deadline h, seqno h)"

text \<open>
  Modelled from the spec: the state of the deadline heap scheduler of section 4.1 (the
  benchmark has only the list \<^verbatim>\<open>scheduled\<close> and the two \<^verbatim>\<open>heapq\<close> calls): the heap, the
  next sequence number, and the store of cancelled flags, which is the set of the sequence
  numbers of the handles whose flag is set.
\<close>

record ('t, 'c) scheduler =
  scheduled :: "('t, 'c) timer_handle list"
  next_seqno :: nat
  cancelled :: "nat set"

text \<open>Modelled from the spec: the scheduler before anything is scheduled (no code under
  \<^verbatim>\<open>src/\<close>; the benchmark starts from \<^verbatim>\<open>scheduled = []\<close>).\<close>

definition new_scheduler :: "('t, 'c) scheduler" where
  "new_scheduler = \<lparr>scheduled = [], next_seqno = 0, cancelled = {}\<rparr>"

text \<open>Modelled from the spec: \<^verbatim>\<open>schedule(deadline, callback)\<close> (no code under \<^verbatim>\<open>src/\<close>)
  "constructs a handle with a fresh sequence number, inserts it into a binary min-heap keyed
  by (deadline, sequence number). Returns the handle".\<close>

definition schedule ::
  "'t::linorder \<Rightarrow> 'c \<Rightarrow> ('t, 'c) scheduler \<Rightarrow> ('t, 'c) timer_handle \<times> ('t, 'c) scheduler" where
  "schedule d cb s =
     (let handle = \<lparr>deadline = d, callback = cb, seqno = next_seqno s\<rparr>
      in (handle, s\<lparr>scheduled := heappush handle_lt (scheduled s) handle,
                     next_seqno := next_seqno s + 1\<rparr>))"

text \<open>Modelled from the spec: \<^verbatim>\<open>cancel(handle)\<close> (no code under \<^verbatim>\<open>src/\<close>) "sets the
  handle's cancelled flag. Does not touch the heap's physical structure". It is
  \<open>cancel_handle\<close> here, \<open>cancel\<close> being the completion object's.\<close>

definition cancel_handle :: "('t, 'c) timer_handle \<Rightarrow> ('t, 'c) scheduler \<Rightarrow> ('t, 'c) scheduler" where
  "cancel_handle handle s = s\<lparr>cancelled := insert (seqno handle) (cancelled s)\<rparr>"

text \<open>
  Modelled from the spec: \<^verbatim>\<open>pop_ready(now)\<close> (no code under \<^verbatim>\<open>src/\<close>) "repeatedly
  removes the minimum-deadline handle; while the removed handle is cancelled, discards it and
  continues; stops and returns the first non-cancelled handle whose deadline \<open>\<le>\<close> now, or
  returns none ready if the heap is empty or the minimum deadline is in the future". \<open>None\<close>
  is "none ready"; the handle at position 0 is looked at before it is removed, so that a
  handle that is not yet due stays in the heap.
\<close>

function pop_ready ::
  "'t::linorder \<Rightarrow> ('t, 'c) scheduler \<Rightarrow> ('t, 'c) timer_handle option \<times> ('t, 'c) scheduler" where
  "pop_ready now s =
     (case scheduled s of
        [] \<Rightarrow> (None, s)
      | head # _ \<Rightarrow>
          if now < deadline head then (None, s)
          else (case heappop handle_lt (scheduled s) of
                  None \<Rightarrow> (None, s)
                | Some (handle, rest) \<Rightarrow>
                    if seqno handle \<in> cancelled s then pop_ready now (s\<lparr>scheduled := rest\<rparr>)
                    else (Some handle, s\<lparr>scheduled := rest\<rparr>)))"
  by pat_completeness auto
termination
  by (relation "measure (\<lambda>(now, s). length (scheduled s))") (auto dest: heappop_length)

declare pop_ready.simps [simp del]

text \<open>Scheduling a list of (deadline, callback) pairs in order with \<open>schedule\<close>; the handles
  come back in scheduling order.\<close>

fun schedule_all ::
  "('t::linorder \<times> 'c) list \<Rightarrow> ('t, 'c) scheduler
     \<Rightarrow> ('t, 'c) timer_handle list \<times> ('t, 'c) scheduler" where
  "schedule_all [] s = ([], s)"
| "schedule_all ((d, cb) # ps) s =
     (case schedule d cb s of (handle, s') \<Rightarrow>
        (case schedule_all ps s' of (handles, s'') \<Rightarrow> (handle # handles, s'')))"

text \<open>Sequences of operations on a scheduler.\<close>

datatype ('t, 'c) scheduler_op =
  Schedule 't 'c | Cancel_handle "('t, 'c) timer_handle" | Pop_ready 't

fun run_ops :: "('t::linorder, 'c) scheduler_op list \<Rightarrow> ('t, 'c) scheduler \<Rightarrow> ('t, 'c) scheduler" where
  "run_ops [] s = s"
| "run_ops (Schedule d cb # ops) s = run_ops ops (snd (schedule d cb s))"
| "run_ops (Cancel_handle handle # ops) s = run_ops ops (cancel_handle handle s)"
| "run_ops (Pop_ready now # ops) s = run_ops ops (snd (pop_ready now s))"

subsection \<open>Properties of the scheduler operations\<close>

lemma handle_lt_key: "handle_lt a b = (handle_key a < handle_key b)"
  by (auto simp: handle_lt_def handle_key_def less_prod_def)

lemma schedule_heap:
  "is_heap handle_key (scheduled s) \<Longrightarrow> is_heap handle_key (scheduled (snd (schedule d cb s)))"
  by (simp add: schedule_def Let_def heappush_heap [of handle_lt handle_key] handle_lt_key)


lemma siftup_loop_mset:
  "pos < c \<Longrightarrow> e \<le> length h \<Longrightarrow> pos < length h \<Longrightarrow>
   siftup_loop lt h e pos c = (h', pos') \<Longrightarrow>
   pos' < length h \<and> length h' = length h \<and> (\<forall>x. mset (h'[pos' := x]) = mset (h[pos := x]))"
proof (induction lt h e pos c arbitrary: h' pos' rule: siftup_loop.induct)
  case (1 lt h e pos c)
  show ?case
  proof (cases "c < e")
    case False
    with "1.prems"(4) have "h' = h" "pos' = pos"
      by (simp_all add: siftup_loop.simps [of lt h e pos c])
    with "1.prems" show ?thesis by simp
  next
    case True
    define c' where "c' = (if c + 1 < e \<and> \<not> lt (h ! c) (h ! (c + 1)) then c + 1 else c)"
    let ?h1 = "h[pos := h ! c']"
    have c': "c' < e" "pos < c'" "c' < length h"
      using True "1.prems"(1,2) by (auto simp: c'_def)
    have "siftup_loop lt h e pos c = siftup_loop lt ?h1 e c' (2 * c' + 1)"
      using True unfolding c'_def
      by (simp add: siftup_loop.simps [of lt h e pos c] Let_def)
    with "1.prems"(4) have rec: "siftup_loop lt ?h1 e c' (2 * c' + 1) = (h', pos')"
      by simp
    have IH: "pos' < length ?h1 \<and> length h' = length ?h1 \<and>
              (\<forall>x. mset (h'[pos' := x]) = mset (?h1[c' := x]))"
      using c' rec "1.prems"(2) unfolding c'_def
      by (intro "1.IH" [OF True refl refl]) auto
    have "\<forall>x. mset (?h1[c' := x]) = mset (h[pos := x])"
      using c' "1.prems"(3) by (auto intro!: mset_move)
    with IH show ?thesis by simp
  qed
qed

lemma siftup_mset:
  assumes "pos < length h"
  shows "mset (siftup lt h pos) = mset h"
proof -
  obtain h' pos' where s: "siftup_loop lt h (length h) pos (2 * pos + 1) = (h', pos')"
    by (cases "siftup_loop lt h (length h) pos (2 * pos + 1)")
  from siftup_loop_mset [OF _ _ assms s]
  have p: "pos' < length h" "length h' = length h"
    "mset (h'[pos' := h ! pos]) = mset (h[pos := h ! pos])" by auto
  have "siftup lt h pos = siftdown_loop lt (h'[pos' := h ! pos]) pos pos' (h ! pos)"
    using s p(1,2) by (simp add: siftup_def siftdown_def Let_def)
  with p show ?thesis by (simp add: siftdown_loop_mset)
qed

lemma heappop_mset:
  "heappop lt h = Some (x, rest) \<Longrightarrow> mset h = add_mset x (mset rest)"
proof (cases "butlast h = []")
  case True
  assume p: "heappop lt h = Some (x, rest)"
  then have "h \<noteq> []" by (auto simp: heappop_def)
  with True have "h = [last h]" by (metis append_butlast_last_id append_Nil)
  with p True show ?thesis by (auto simp: heappop_def Let_def split: if_splits)
next
  case False
  assume p: "heappop lt h = Some (x, rest)"
  let ?b = "butlast h"
  from False have ne: "h \<noteq> []" by auto
  then have hb: "h = ?b @ [last h]" by simp
  from False have l: "0 < length ?b" using length_greater_0_conv [of ?b] by blast
  from p False ne have x: "x = ?b ! 0" and rest: "rest = siftup lt (?b[0 := last h]) 0"
    by (auto simp: heappop_def Let_def)
  have "mset rest = mset (?b[0 := last h])"
    using l by (simp add: rest siftup_mset del: length_butlast)
  also have "\<dots> = add_mset (last h) (mset ?b - {#?b ! 0#})"
    using l by (rule mset_update)
  finally have "add_mset x (mset rest) = add_mset (last h) (add_mset (?b ! 0) (mset ?b - {#?b ! 0#}))"
    using x by simp
  also have "add_mset (?b ! 0) (mset ?b - {#?b ! 0#}) = mset ?b"
    using l by (intro insert_DiffM) (simp add: nth_mem del: length_butlast)
  also have "add_mset (last h) (mset ?b) = mset h" by (subst (2) hb) simp
  finally show ?thesis by simp
qed

lemma heappop_subset:
  assumes "heappop lt h = Some (x, rest)"
  shows "set rest \<subseteq> set h"
proof -
  from heappop_mset [OF assms] have "mset h = mset (x # rest)" by simp
  then have "set h = set (x # rest)" by (rule mset_eq_setD)
  then show ?thesis by auto
qed

lemma pop_ready_sound:
  "pop_ready now s = (Some h, s') \<Longrightarrow>
     deadline h \<le> now \<and> seqno h \<notin> cancelled s \<and> h \<in> set (scheduled s) \<and>
     cancelled s' = cancelled s \<and> next_seqno s' = next_seqno s"
proof (induction now s rule: pop_ready.induct)
  case (1 now s)
  show ?case
  proof (cases "scheduled s")
    case Nil
    with "1.prems" show ?thesis by (simp add: pop_ready.simps [of now s])
  next
    case (Cons hd tl)
    then have ne: "scheduled s \<noteq> []" by simp
    from heappop_nonempty [OF ne, of handle_lt] obtain rest where
      r: "heappop handle_lt (scheduled s) = Some (scheduled s ! 0, rest)" by blast
    have hd: "scheduled s ! 0 = hd" using Cons by simp
    from "1.prems" Cons have due: "\<not> now < deadline hd"
      by (auto simp: pop_ready.simps [of now s] split: if_splits)
    show ?thesis
    proof (cases "seqno hd \<in> cancelled s")
      case True
      with "1.prems" Cons r hd due have "pop_ready now (s\<lparr>scheduled := rest\<rparr>) = (Some h, s')"
        by (simp add: pop_ready.simps [of now s])
      from "1.IH" [OF Cons due r [unfolded hd] refl _ this] True hd
      have "deadline h \<le> now \<and> seqno h \<notin> cancelled s \<and> h \<in> set rest \<and>
            cancelled s' = cancelled s \<and> next_seqno s' = next_seqno s"
        by simp
      moreover have "set rest \<subseteq> set (scheduled s)"
        using heappop_subset [OF r] .
      ultimately show ?thesis by auto
    next
      case False
      with "1.prems" Cons r hd due have "h = hd" "s' = s\<lparr>scheduled := rest\<rparr>"
        by (auto simp: pop_ready.simps [of now s])
      with False due Cons show ?thesis by simp
    qed
  qed
qed

lemma pop_ready_none:
  "\<forall>h \<in> set (scheduled s). now < deadline h \<Longrightarrow> pop_ready now s = (None, s)"
  by (cases "scheduled s") (simp_all add: pop_ready.simps [of now s])

lemma pop_ready_skip:
  assumes "scheduled s \<noteq> []" "\<not> now < deadline (scheduled s ! 0)"
    "seqno (scheduled s ! 0) \<in> cancelled s"
  shows "\<exists>rest. heappop handle_lt (scheduled s) = Some (scheduled s ! 0, rest) \<and>
           pop_ready now s = pop_ready now (s\<lparr>scheduled := rest\<rparr>)"
proof -
  from heappop_nonempty [OF assms(1), of handle_lt] obtain rest where
    r: "heappop handle_lt (scheduled s) = Some (scheduled s ! 0, rest)" by blast
  obtain hd tl where c: "scheduled s = hd # tl" using assms(1) by (cases "scheduled s") auto
  with assms r have "pop_ready now s = pop_ready now (s\<lparr>scheduled := rest\<rparr>)"
    by (simp add: pop_ready.simps [of now s])
  with r show ?thesis by blast
qed

lemma pop_ready_first:
  "is_heap handle_key (scheduled s) \<Longrightarrow> pop_ready now s = (r, s') \<Longrightarrow>
     is_heap handle_key (scheduled s') \<and> cancelled s' = cancelled s \<and>
     next_seqno s' = next_seqno s \<and> set (scheduled s') \<subseteq> set (scheduled s) \<and>
     (case r of
        Some h \<Rightarrow> \<forall>h' \<in> set (scheduled s). seqno h' \<notin> cancelled s \<longrightarrow> handle_key h \<le> handle_key h'
      | None \<Rightarrow> \<forall>h' \<in> set (scheduled s). seqno h' \<in> cancelled s \<or> now < deadline h')"
proof (induction now s rule: pop_ready.induct)
  case (1 now s)
  show ?case
  proof (cases "scheduled s")
    case Nil
    with "1.prems" show ?thesis by (auto simp: pop_ready.simps [of now s])
  next
    case (Cons hd tl)
    then have ne: "scheduled s \<noteq> []" by simp
    have hd: "scheduled s ! 0 = hd" using Cons by simp
    from heappop_props [of handle_lt handle_key, OF handle_lt_key ne "1.prems"(1)]
    obtain rest where
      r: "heappop handle_lt (scheduled s) = Some (hd, rest)" "is_heap handle_key rest"
         "mset (scheduled s) = add_mset hd (mset rest)"
      unfolding hd by blast
    from r(3) have "mset (scheduled s) = mset (hd # rest)" by simp
    then have "set (scheduled s) = set (hd # rest)" by (rule mset_eq_setD)
    then have sets: "set (scheduled s) = insert hd (set rest)" by simp
    have min: "\<forall>h' \<in> set (scheduled s). handle_key hd \<le> handle_key h'"
    proof
      fix h' assume "h' \<in> set (scheduled s)"
      then obtain i where "i < length (scheduled s)" "scheduled s ! i = h'"
        by (auto simp: in_set_conv_nth)
      with is_heap_min [OF "1.prems"(1), of i] hd show "handle_key hd \<le> handle_key h'" by simp
    qed
    show ?thesis
    proof (cases "now < deadline hd")
      case True
      with "1.prems"(2) Cons have "r = None" "s' = s" by (auto simp: pop_ready.simps [of now s])
      moreover have "\<forall>h' \<in> set (scheduled s). now < deadline h'"
      proof
        fix h' assume "h' \<in> set (scheduled s)"
        with min have "handle_key hd \<le> handle_key h'" by blast
        then have "deadline hd \<le> deadline h'" by (auto simp: handle_key_def less_eq_prod_def)
        with True show "now < deadline h'" by simp
      qed
      ultimately show ?thesis using "1.prems"(1) by simp
    next
      case due: False
      show ?thesis
      proof (cases "seqno hd \<in> cancelled s")
        case True
        with "1.prems"(2) Cons r(1) due have p: "pop_ready now (s\<lparr>scheduled := rest\<rparr>) = (r, s')"
          by (simp add: pop_ready.simps [of now s])
        from "1.IH" [OF Cons due r(1) refl True _ p] r(2)
        have IH: "is_heap handle_key (scheduled s')" "cancelled s' = cancelled s"
          "next_seqno s' = next_seqno s" "set (scheduled s') \<subseteq> set rest"
          "(case r of
              Some h \<Rightarrow> \<forall>h' \<in> set rest. seqno h' \<notin> cancelled s \<longrightarrow> handle_key h \<le> handle_key h'
            | None \<Rightarrow> \<forall>h' \<in> set rest. seqno h' \<in> cancelled s \<or> now < deadline h')"
          by (simp_all cong: option.case_cong)
        from IH(5) True sets have
          "(case r of
              Some h \<Rightarrow> \<forall>h' \<in> set (scheduled s). seqno h' \<notin> cancelled s \<longrightarrow> handle_key h \<le> handle_key h'
            | None \<Rightarrow> \<forall>h' \<in> set (scheduled s). seqno h' \<in> cancelled s \<or> now < deadline h')"
          by (cases r) auto
        with IH(1-4) sets show ?thesis by auto
      next
        case False
        with "1.prems"(2) Cons r(1) due have "r = Some hd" "s' = s\<lparr>scheduled := rest\<rparr>"
          by (auto simp: pop_ready.simps [of now s])
        with min r(2) sets show ?thesis by auto
      qed
    qed
  qed
qed

lemma run_ops_props:
  "is_heap handle_key (scheduled s) \<Longrightarrow>
     is_heap handle_key (scheduled (run_ops ops s)) \<and> cancelled s \<subseteq> cancelled (run_ops ops s)"
proof (induction ops arbitrary: s)
  case Nil
  then show ?case by simp
next
  case (Cons op ops)
  show ?case
  proof (cases op)
    case (Schedule d cb)
    have "cancelled (snd (schedule d cb s)) = cancelled s" by (simp add: schedule_def Let_def)
    with Cons.IH [OF schedule_heap [OF Cons.prems, of d cb]] Schedule show ?thesis by simp
  next
    case (Cancel_handle h)
    have "is_heap handle_key (scheduled (cancel_handle h s))"
      using Cons.prems by (simp add: cancel_handle_def)
    from Cons.IH [OF this] Cancel_handle show ?thesis by (auto simp: cancel_handle_def)
  next
    case (Pop_ready now)
    obtain r s' where p: "pop_ready now s = (r, s')" by (cases "pop_ready now s")
    from pop_ready_first [OF Cons.prems p] Cons.IH [of s'] Pop_ready p show ?thesis by simp
  qed
qed

lemma run_ops_cancelled:
  "is_heap handle_key (scheduled s) \<Longrightarrow> Cancel_handle h \<in> set ops \<Longrightarrow>
     seqno h \<in> cancelled (run_ops ops s)"
proof (induction ops arbitrary: s)
  case Nil
  then show ?case by simp
next
  case (Cons op ops)
  show ?case
  proof (cases "op = Cancel_handle h")
    case True
    have "is_heap handle_key (scheduled (cancel_handle h s))"
      using Cons.prems(1) by (simp add: cancel_handle_def)
    from run_ops_props [OF this, of ops] True show ?thesis by (auto simp: cancel_handle_def)
  next
    case False
    with Cons.prems(2) have m: "Cancel_handle h \<in> set ops" by simp
    have "is_heap handle_key (scheduled (run_ops [op] s))"
      using run_ops_props [OF Cons.prems(1), of "[op]"] by simp
    from Cons.IH [OF this m] show ?thesis by (cases op) simp_all
  qed
qed

lemma new_scheduler_heap: "is_heap handle_key (scheduled new_scheduler)"
  by (simp add: new_scheduler_def is_heap_def)

section \<open>The scheduler: what \<open>pop_ready\<close> returns\<close>

text \<open>
  C8. For every sequence of scheduler operations from a new scheduler and every time \<open>now\<close>:
  a handle that \<open>pop_ready now\<close> returns has a deadline that does not exceed \<open>now\<close>, is not
  cancelled (no cancel of it occurs anywhere in the sequence), was in the heap, and no live
  handle of the heap is ordered before it. "None ready" is the result when the heap is empty
  or every deadline in it, so the minimum one, lies in the future, and whenever it is the
  result every handle of the heap is cancelled or not yet due. A cancelled handle that is due
  at the heap minimum is removed and the search goes on in the rest.
\<close>

theorem pop_ready_never_late_never_cancelled:
  fixes ops :: "('t::linorder, 'c) scheduler_op list" and now :: 't
  assumes s: "s = run_ops ops new_scheduler"
  shows
    "(pop_ready now s = (Some h, s') \<longrightarrow>
        deadline h \<le> now \<and> seqno h \<notin> cancelled s \<and> Cancel_handle h \<notin> set ops \<and>
        h \<in> set (scheduled s) \<and>
        (\<forall>h' \<in> set (scheduled s). seqno h' \<notin> cancelled s \<longrightarrow> \<not> handle_lt h' h)) \<and>
     (scheduled s = [] \<or> (\<forall>h' \<in> set (scheduled s). now < deadline h') \<longrightarrow>
        pop_ready now s = (None, s)) \<and>
     (fst (pop_ready now s) = None \<longrightarrow>
        (\<forall>h' \<in> set (scheduled s). seqno h' \<in> cancelled s \<or> now < deadline h')) \<and>
     (scheduled s \<noteq> [] \<and> deadline (scheduled s ! 0) \<le> now \<and>
      seqno (scheduled s ! 0) \<in> cancelled s \<longrightarrow>
        (\<exists>rest. heappop handle_lt (scheduled s) = Some (scheduled s ! 0, rest) \<and>
                pop_ready now s = pop_ready now (s\<lparr>scheduled := rest\<rparr>)))"
proof (intro conjI impI)
  have heap: "is_heap handle_key (scheduled s)"
    unfolding s using run_ops_props [OF new_scheduler_heap] by blast
  {
    assume p: "pop_ready now s = (Some h, s')"
    from pop_ready_sound [OF p]
    show "deadline h \<le> now" and nc: "seqno h \<notin> cancelled s" and "h \<in> set (scheduled s)"
      by simp_all
    show "Cancel_handle h \<notin> set ops"
      using run_ops_cancelled [OF new_scheduler_heap, of h ops] nc s by blast
    from pop_ready_first [OF heap p]
    have "\<forall>h' \<in> set (scheduled s). seqno h' \<notin> cancelled s \<longrightarrow> handle_key h \<le> handle_key h'"
      by simp
    then show "\<forall>h' \<in> set (scheduled s). seqno h' \<notin> cancelled s \<longrightarrow> \<not> handle_lt h' h"
      by (auto simp: handle_lt_key)
  }
  {
    assume "scheduled s = [] \<or> (\<forall>h' \<in> set (scheduled s). now < deadline h')"
    then have "\<forall>h' \<in> set (scheduled s). now < deadline h'" by auto
    then show "pop_ready now s = (None, s)" by (rule pop_ready_none)
  }
  {
    assume n: "fst (pop_ready now s) = None"
    obtain r s1 where p: "pop_ready now s = (r, s1)" by (cases "pop_ready now s")
    with n have "r = None" by simp
    with pop_ready_first [OF heap p]
    show "\<forall>h' \<in> set (scheduled s). seqno h' \<in> cancelled s \<or> now < deadline h'" by simp
  }
  {
    assume "scheduled s \<noteq> [] \<and> deadline (scheduled s ! 0) \<le> now \<and>
            seqno (scheduled s ! 0) \<in> cancelled s"
    then show "\<exists>rest. heappop handle_lt (scheduled s) = Some (scheduled s ! 0, rest) \<and>
                pop_ready now s = pop_ready now (s\<lparr>scheduled := rest\<rparr>)"
      by (intro pop_ready_skip) auto
  }
qed


theorem pop_ready_never_late_never_cancelled_witness:
  "pop_ready (7::int)
     (run_ops [Schedule 10 ''x'',
               Cancel_handle \<lparr>deadline = 10, callback = ''x'', seqno = 0\<rparr>,
               Schedule 5 ''y''] new_scheduler)
     = (Some \<lparr>deadline = 5, callback = ''y'', seqno = 1\<rparr>,
        \<lparr>scheduled = [\<lparr>deadline = 10, callback = ''x'', seqno = 0\<rparr>],
          next_seqno = 2, cancelled = {0}\<rparr>) \<and>
   deadline \<lparr>deadline = 5::int, callback = ''y'', seqno = 1\<rparr> \<le> 7 \<and>
   Cancel_handle \<lparr>deadline = 5::int, callback = ''y'', seqno = 1\<rparr>
     \<notin> set [Schedule 10 ''x'',
             Cancel_handle \<lparr>deadline = 10, callback = ''x'', seqno = 0\<rparr>,
             Schedule 5 ''y''] \<and>
   pop_ready (10::int)
     (run_ops [Schedule 10 ''x'',
               Cancel_handle \<lparr>deadline = 10, callback = ''x'', seqno = 0\<rparr>] new_scheduler)
     = (None, \<lparr>scheduled = [], next_seqno = 1, cancelled = {0}\<rparr>)"
proof -
  let ?ops = "[Schedule (10::int) ''x'',
               Cancel_handle \<lparr>deadline = 10, callback = ''x'', seqno = 0\<rparr>,
               Schedule 5 ''y'']"
  let ?h = "\<lparr>deadline = 5::int, callback = ''y'', seqno = 1\<rparr>"
  let ?s' = "\<lparr>scheduled = [\<lparr>deadline = 10::int, callback = ''x'', seqno = 0\<rparr>],
              next_seqno = 2, cancelled = {0}\<rparr>"
  have e: "pop_ready 7 (run_ops ?ops new_scheduler) = (Some ?h, ?s')"
    by code_simp
  have b: "pop_ready (10::int)
     (run_ops [Schedule 10 ''x'',
               Cancel_handle \<lparr>deadline = 10, callback = ''x'', seqno = 0\<rparr>] new_scheduler)
     = (None, \<lparr>scheduled = [], next_seqno = 1, cancelled = {0}\<rparr>)"
    by code_simp
  from pop_ready_never_late_never_cancelled [OF refl, of 7 ?ops ?h ?s'] e b
  show ?thesis by blast
qed

section \<open>Pop order\<close>

lemma pop_ready_shrinks:
  "pop_ready now s = (Some h, s') \<Longrightarrow> length (scheduled s') < length (scheduled s)"
proof (induction now s rule: pop_ready.induct)
  case (1 now s)
  show ?case
  proof (cases "scheduled s")
    case Nil
    with "1.prems" show ?thesis by (simp add: pop_ready.simps [of now s])
  next
    case (Cons hd tl)
    then have ne: "scheduled s \<noteq> []" by simp
    from heappop_nonempty [OF ne, of handle_lt] obtain rest where
      r: "heappop handle_lt (scheduled s) = Some (scheduled s ! 0, rest)" by blast
    have hd: "scheduled s ! 0 = hd" using Cons by simp
    from heappop_length [OF r] have l: "length rest < length (scheduled s)" by simp
    from "1.prems" Cons have due: "\<not> now < deadline hd"
      by (auto simp: pop_ready.simps [of now s] split: if_splits)
    show ?thesis
    proof (cases "seqno hd \<in> cancelled s")
      case True
      with "1.prems" Cons r hd due have "pop_ready now (s\<lparr>scheduled := rest\<rparr>) = (Some h, s')"
        by (simp add: pop_ready.simps [of now s])
      from "1.IH" [OF Cons due r [unfolded hd] refl True this] l show ?thesis by simp
    next
      case False
      with "1.prems" Cons r hd due have "s' = s\<lparr>scheduled := rest\<rparr>"
        by (auto simp: pop_ready.simps [of now s])
      with l show ?thesis by simp
    qed
  qed
qed

text \<open>
  Modelled from the spec: the caller's loop (no code under \<^verbatim>\<open>src/\<close>; section 6 expects the
  driver to "invoke \<^verbatim>\<open>pop_ready\<close> in a loop"): \<^verbatim>\<open>pop_ready(now)\<close> again and again at one
  time \<open>now\<close> until none is ready; the handles in the order in which they are returned.
\<close>

function pop_ready_all :: "'t::linorder \<Rightarrow> ('t, 'c) scheduler \<Rightarrow> ('t, 'c) timer_handle list" where
  "pop_ready_all now s =
     (case pop_ready now s of
        (None, s') \<Rightarrow> []
      | (Some handle, s') \<Rightarrow> handle # pop_ready_all now s')"
  by pat_completeness auto
termination
  by (relation "measure (\<lambda>(now, s). length (scheduled s))") (auto dest: pop_ready_shrinks [OF sym])

declare pop_ready_all.simps [simp del]

text \<open>
  \<^verbatim>\<open>heap_handle\<close> of \<^verbatim>\<open>src/bench/timer_handle_heap.py\<close> (lines 31 to 41): the loop of
  lines 35 to 38 runs 100 times from \<^verbatim>\<open>when = 1\<close>, each time adding 1 to \<^verbatim>\<open>when\<close>,
  constructing a handle and pushing it bare onto the heap; \<open>push_handles\<close> is that loop on
  the state (\<^verbatim>\<open>when\<close>, next sequence number, \<^verbatim>\<open>scheduled\<close>). The loop of lines 40 and 41
  then pops until the list is empty. The function returns nothing; the model returns the
  handles in the order in which they are popped. The module's \<^verbatim>\<open>callback\<close> and the sequence
  number the first handle gets are parameters.
\<close>

fun push_handles ::
  "nat \<Rightarrow> 'c \<Rightarrow> int \<times> nat \<times> (int, 'c) timer_handle list
     \<Rightarrow> int \<times> nat \<times> (int, 'c) timer_handle list" where
  "push_handles 0 cb st = st"
| "push_handles (Suc n) cb (when, c, sched) =
     push_handles n cb
       (when + 1, c + 1,
        heappush handle_lt sched \<lparr>deadline = when + 1, callback = cb, seqno = c\<rparr>)"

definition heap_handle :: "'c \<Rightarrow> nat \<Rightarrow> (int, 'c) timer_handle list" where
  "heap_handle cb c =
     (case push_handles 100 cb (1, c, []) of (when, c', sched) \<Rightarrow> pop_all handle_lt sched)"


lemma sorted_key_deadline:
  "sorted (map handle_key hs) \<Longrightarrow> sorted (map deadline hs)"
  by (induction hs) (auto simp: handle_key_def less_eq_prod_def)

lemma pop_ready_all_sorted:
  "is_heap handle_key (scheduled s) \<Longrightarrow>
     sorted (map handle_key (pop_ready_all now s)) \<and>
     (\<forall>h \<in> set (pop_ready_all now s).
          h \<in> set (scheduled s) \<and> seqno h \<notin> cancelled s \<and> deadline h \<le> now)"
proof (induction now s rule: pop_ready_all.induct)
  case (1 now s)
  obtain r s' where p: "pop_ready now s = (r, s')" by (cases "pop_ready now s")
  show ?case
  proof (cases r)
    case None
    with p show ?thesis by (simp add: pop_ready_all.simps [of now s])
  next
    case (Some h)
    note f = pop_ready_first [OF "1.prems" p]
    from f have heap': "is_heap handle_key (scheduled s')" and c: "cancelled s' = cancelled s"
      and sub: "set (scheduled s') \<subseteq> set (scheduled s)" by simp_all
    from f Some have min:
      "\<forall>h' \<in> set (scheduled s). seqno h' \<notin> cancelled s \<longrightarrow> handle_key h \<le> handle_key h'"
      by simp
    from pop_ready_sound [OF p [unfolded Some]]
    have h: "deadline h \<le> now" "seqno h \<notin> cancelled s" "h \<in> set (scheduled s)" by simp_all
    from "1.IH" [OF p [symmetric] Some heap']
    have IH: "sorted (map handle_key (pop_ready_all now s'))"
      "\<forall>h \<in> set (pop_ready_all now s').
          h \<in> set (scheduled s') \<and> seqno h \<notin> cancelled s' \<and> deadline h \<le> now"
      by simp_all
    have e: "pop_ready_all now s = h # pop_ready_all now s'"
      using p Some by (simp add: pop_ready_all.simps [of now s])
    have "\<forall>h' \<in> set (pop_ready_all now s'). handle_key h \<le> handle_key h'"
      using IH(2) min sub c by blast
    with IH h sub c show ?thesis unfolding e by auto
  qed
qed

lemma push_handles_props:
  "is_heap handle_key sched \<Longrightarrow> push_handles n cb (w, c, sched) = (w', c', sched') \<Longrightarrow>
     is_heap handle_key sched' \<and>
     mset sched' = mset sched +
       mset (map (\<lambda>i. \<lparr>deadline = w + 1 + int i, callback = cb, seqno = c + i\<rparr>) [0..<n])"
proof (induction n arbitrary: w c sched)
  case 0
  then show ?case by simp
next
  case (Suc n)
  let ?h = "\<lparr>deadline = w + 1, callback = cb, seqno = c\<rparr>"
  let ?f = "\<lambda>i. \<lparr>deadline = w + 1 + int i, callback = cb, seqno = c + i\<rparr>"
  have hp: "is_heap handle_key (heappush handle_lt sched ?h)"
    using Suc.prems(1) by (intro heappush_heap handle_lt_key)
  from Suc.prems(2) have "push_handles n cb (w + 1, c + 1, heappush handle_lt sched ?h) = (w', c', sched')"
    by simp
  from Suc.IH [OF hp this]
  have IH: "is_heap handle_key sched'"
    "mset sched' = mset (heappush handle_lt sched ?h) +
       mset (map (\<lambda>i. \<lparr>deadline = w + 1 + 1 + int i, callback = cb, seqno = c + 1 + i\<rparr>) [0..<n])"
    by simp_all
  have "map ?f [0..<Suc n] = ?f 0 # map (?f \<circ> Suc) [0..<n]"
    by (simp only: map_Suc_upt [symmetric] upt_conv_Cons [of 0 "Suc n"] list.map map_map zero_less_Suc)
  also have "?f 0 = ?h" by simp
  also have "map (?f \<circ> Suc) [0..<n]
      = map (\<lambda>i. \<lparr>deadline = w + 1 + 1 + int i, callback = cb, seqno = c + 1 + i\<rparr>) [0..<n]"
    by (simp add: algebra_simps)
  finally show ?case using IH by (simp add: heappush_mset)
qed

lemma heap_handle_eq:
  "heap_handle cb c = map (\<lambda>i. \<lparr>deadline = 2 + int i, callback = cb, seqno = c + i\<rparr>) [0..<100]"
proof -
  let ?f = "\<lambda>i. \<lparr>deadline = (1::int) + 1 + int i, callback = cb, seqno = c + i\<rparr>"
  let ?H = "map ?f [0..<100]"
  obtain w' c' sched where p: "push_handles 100 cb (1, c, []) = (w', c', sched)"
    by (cases "push_handles 100 cb (1, c, [])")
  have "is_heap handle_key ([] :: (int, 'a) timer_handle list)" by (simp add: is_heap_def)
  from push_handles_props [OF this p]
  have heap: "is_heap handle_key sched" and m: "mset sched = mset ?H" by simp_all
  let ?L = "pop_all handle_lt sched"
  from pop_all_heap [of handle_lt handle_key, OF handle_lt_key heap]
  have L: "sorted (map handle_key ?L)" "mset ?L = mset ?H" using m by simp_all
  have sH: "sorted (map handle_key ?H)"
    by (simp add: sorted_iff_nth_mono handle_key_def less_eq_prod_def del: upt_Suc)
  have "inj_on handle_key (set ?H)"
    by (auto simp: inj_on_def handle_key_def)
  with L have "sort_key handle_key ?H = ?L"
    by (intro sort_key_inj_key_eq) auto
  moreover have "sort_key handle_key ?H = ?H" using sH by (rule sort_key_id_if_sorted)
  ultimately have "?L = ?H" by simp
  with p show ?thesis by (simp add: heap_handle_def)
qed

lemma upto_2_101: "map (\<lambda>i. 2 + int i) [0..<100] = [2..101]"
  by code_simp

text \<open>
  \<^verbatim>\<open>heap_tuple\<close> (lines 18 to 28) is the same benchmark with each handle wrapped in the
  tuple \<^verbatim>\<open>(when, handle)\<close>. Python compares tuples at the first position where they differ:
  by \<^verbatim>\<open>when\<close>, and between equal \<^verbatim>\<open>when\<close> by the handles.
\<close>

definition tuple_lt ::
  "'t::linorder \<times> ('t, 'c) timer_handle \<Rightarrow> 't \<times> ('t, 'c) timer_handle \<Rightarrow> bool" where
  "tuple_lt a b = (fst a < fst b \<or> (fst a = fst b \<and> handle_lt (snd a) (snd b)))"

definition tuple_key :: "'t \<times> ('t, 'c) timer_handle \<Rightarrow> 't \<times> 't \<times> nat" where
  "tuple_key a = (fst a, handle_key (snd a))"

fun push_tuples ::
  "nat \<Rightarrow> 'c \<Rightarrow> int \<times> nat \<times> (int \<times> (int, 'c) timer_handle) list
     \<Rightarrow> int \<times> nat \<times> (int \<times> (int, 'c) timer_handle) list" where
  "push_tuples 0 cb st = st"
| "push_tuples (Suc n) cb (when, c, sched) =
     push_tuples n cb
       (when + 1, c + 1,
        heappush tuple_lt sched
          (when + 1, \<lparr>deadline = when + 1, callback = cb, seqno = c\<rparr>))"

definition heap_tuple :: "'c \<Rightarrow> nat \<Rightarrow> (int \<times> (int, 'c) timer_handle) list" where
  "heap_tuple cb c =
     (case push_tuples 100 cb (1, c, []) of (when, c', sched) \<Rightarrow> pop_all tuple_lt sched)"

lemma tuple_lt_key: "tuple_lt a b = (tuple_key a < tuple_key b)"
  by (auto simp: tuple_lt_def tuple_key_def handle_lt_key less_prod_def)

lemma push_tuples_props:
  "is_heap tuple_key sched \<Longrightarrow> push_tuples n cb (w, c, sched) = (w', c', sched') \<Longrightarrow>
     is_heap tuple_key sched' \<and>
     mset sched' = mset sched +
       mset (map (\<lambda>i. (w + 1 + int i,
                        \<lparr>deadline = w + 1 + int i, callback = cb, seqno = c + i\<rparr>)) [0..<n])"
proof (induction n arbitrary: w c sched)
  case 0
  then show ?case by simp
next
  case (Suc n)
  let ?h = "(w + 1, \<lparr>deadline = w + 1, callback = cb, seqno = c\<rparr>)"
  let ?f = "\<lambda>i. (w + 1 + int i, \<lparr>deadline = w + 1 + int i, callback = cb, seqno = c + i\<rparr>)"
  have hp: "is_heap tuple_key (heappush tuple_lt sched ?h)"
    using Suc.prems(1) by (intro heappush_heap tuple_lt_key)
  from Suc.prems(2) have "push_tuples n cb (w + 1, c + 1, heappush tuple_lt sched ?h) = (w', c', sched')"
    by simp
  from Suc.IH [OF hp this]
  have IH: "is_heap tuple_key sched'"
    "mset sched' = mset (heappush tuple_lt sched ?h) +
       mset (map (\<lambda>i. (w + 1 + 1 + int i,
                        \<lparr>deadline = w + 1 + 1 + int i, callback = cb, seqno = c + 1 + i\<rparr>)) [0..<n])"
    by simp_all
  have "map ?f [0..<Suc n] = ?f 0 # map (?f \<circ> Suc) [0..<n]"
    by (simp only: map_Suc_upt [symmetric] upt_conv_Cons [of 0 "Suc n"] list.map map_map zero_less_Suc)
  also have "?f 0 = ?h" by simp
  also have "map (?f \<circ> Suc) [0..<n]
      = map (\<lambda>i. (w + 1 + 1 + int i,
                   \<lparr>deadline = w + 1 + 1 + int i, callback = cb, seqno = c + 1 + i\<rparr>)) [0..<n]"
    by (simp add: algebra_simps)
  finally show ?case using IH by (simp add: heappush_mset)
qed

lemma heap_tuple_eq:
  "heap_tuple cb c =
     map (\<lambda>i. (2 + int i, \<lparr>deadline = 2 + int i, callback = cb, seqno = c + i\<rparr>)) [0..<100]"
proof -
  let ?f = "\<lambda>i. ((1::int) + 1 + int i, \<lparr>deadline = (1::int) + 1 + int i, callback = cb, seqno = c + i\<rparr>)"
  let ?H = "map ?f [0..<100]"
  obtain w' c' sched where p: "push_tuples 100 cb (1, c, []) = (w', c', sched)"
    by (cases "push_tuples 100 cb (1, c, [])")
  have "is_heap tuple_key ([] :: (int \<times> (int, 'a) timer_handle) list)" by (simp add: is_heap_def)
  from push_tuples_props [OF this p]
  have heap: "is_heap tuple_key sched" and m: "mset sched = mset ?H" by simp_all
  let ?L = "pop_all tuple_lt sched"
  from pop_all_heap [of tuple_lt tuple_key, OF tuple_lt_key heap]
  have L: "sorted (map tuple_key ?L)" "mset ?L = mset ?H" using m by simp_all
  have sH: "sorted (map tuple_key ?H)"
    by (simp add: sorted_iff_nth_mono tuple_key_def handle_key_def less_eq_prod_def del: upt_Suc)
  have "inj_on tuple_key (set ?H)"
    by (auto simp: inj_on_def tuple_key_def handle_key_def)
  with L have "sort_key tuple_key ?H = ?L"
    by (intro sort_key_inj_key_eq) auto
  moreover have "sort_key tuple_key ?H = ?H" using sH by (rule sort_key_id_if_sorted)
  ultimately have "?L = ?H" by simp
  with p show ?thesis by (simp add: heap_tuple_def)
qed

lemma heap_tuple_handle: "map snd (heap_tuple cb c) = heap_handle cb c"
  by (simp only: heap_tuple_eq heap_handle_eq map_map o_def snd_conv)

lemma heap_tuple_when: "map fst (heap_tuple cb c) = [2..101]"
  by (simp only: heap_tuple_eq map_map o_def fst_conv upto_2_101)






text \<open>
  C7. Repeatedly popping from the scheduler's binary min-heap returns the handles in
  non-decreasing deadline order: for every sequence of operations from a new scheduler, the
  heap pops (the benchmark's own loop) return every handle of the heap, sorted by deadline,
  and so does repeated \<^verbatim>\<open>pop_ready\<close>. In particular, with handles scheduled at deadlines
  5, 3, 3, 1 with callbacks A, B, C, D in that order, the pop order is D(1), B(3), C(3), A(5);
  and \<^verbatim>\<open>heap_handle\<close> pops its hundred handles in the order of their deadlines 2 to 101,
  as \<^verbatim>\<open>heap_tuple\<close> does with the same handles wrapped in tuples.
\<close>

theorem pops_in_deadline_order:
  fixes ops :: "('t::linorder, 'c) scheduler_op list" and now :: 't
  shows
    "sorted (map deadline (pop_all handle_lt (scheduled (run_ops ops new_scheduler)))) \<and>
     mset (pop_all handle_lt (scheduled (run_ops ops new_scheduler)))
       = mset (scheduled (run_ops ops new_scheduler)) \<and>
     sorted (map deadline (pop_ready_all now (run_ops ops new_scheduler))) \<and>
     map (\<lambda>h. (callback h, deadline h))
       (pop_all handle_lt (scheduled (snd (schedule_all
          [(5::int, ''A''), (3, ''B''), (3, ''C''), (1, ''D'')] new_scheduler))))
       = [(''D'', 1), (''B'', 3), (''C'', 3), (''A'', 5)] \<and>
     map (\<lambda>h. (callback h, deadline h))
       (pop_ready_all 5 (snd (schedule_all
          [(5::int, ''A''), (3, ''B''), (3, ''C''), (1, ''D'')] new_scheduler)))
       = [(''D'', 1), (''B'', 3), (''C'', 3), (''A'', 5)] \<and>
     map deadline (heap_handle cb c) = [2..101] \<and>
     map fst (heap_tuple cb c) = [2..101] \<and>
     map snd (heap_tuple cb c) = heap_handle cb c"
proof (intro conjI)
  let ?s = "run_ops ops new_scheduler"
  have heap: "is_heap handle_key (scheduled ?s)"
    using run_ops_props [OF new_scheduler_heap] by blast
  from pop_all_heap [of handle_lt handle_key, OF handle_lt_key heap]
  show "sorted (map deadline (pop_all handle_lt (scheduled ?s)))"
    and "mset (pop_all handle_lt (scheduled ?s)) = mset (scheduled ?s)"
    by (simp_all add: sorted_key_deadline)
  from pop_ready_all_sorted [OF heap, of now]
  show "sorted (map deadline (pop_ready_all now ?s))"
    by (simp add: sorted_key_deadline)
  show "map (\<lambda>h. (callback h, deadline h))
       (pop_all handle_lt (scheduled (snd (schedule_all
          [(5::int, ''A''), (3, ''B''), (3, ''C''), (1, ''D'')] new_scheduler))))
       = [(''D'', 1), (''B'', 3), (''C'', 3), (''A'', 5)]"
    by code_simp
  show "map (\<lambda>h. (callback h, deadline h))
       (pop_ready_all 5 (snd (schedule_all
          [(5::int, ''A''), (3, ''B''), (3, ''C''), (1, ''D'')] new_scheduler)))
       = [(''D'', 1), (''B'', 3), (''C'', 3), (''A'', 5)]"
    by code_simp
  show "map deadline (heap_handle cb c) = [2..101]"
    by (simp only: heap_handle_eq map_map o_def timer_handle.simps upto_2_101)
  show "map fst (heap_tuple cb c) = [2..101]"
    by (rule heap_tuple_when)
  show "map snd (heap_tuple cb c) = heap_handle cb c"
    by (rule heap_tuple_handle)
qed

theorem pops_in_deadline_order_witness:
  "sorted (map deadline (pop_ready_all (4::int)
     (run_ops [Schedule 5 ''A'', Schedule 3 ''B'', Schedule 3 ''C'', Schedule 1 ''D'']
        new_scheduler))) \<and>
   map deadline (pop_ready_all (4::int)
     (run_ops [Schedule 5 ''A'', Schedule 3 ''B'', Schedule 3 ''C'', Schedule 1 ''D'']
        new_scheduler)) = [1, 3, 3]"
proof -
  have "map deadline (pop_ready_all (4::int)
     (run_ops [Schedule 5 ''A'', Schedule 3 ''B'', Schedule 3 ''C'', Schedule 1 ''D'']
        new_scheduler)) = [1, 3, 3]"
    by code_simp
  moreover from pops_in_deadline_order
    [of "[Schedule (5::int) ''A'', Schedule 3 ''B'', Schedule 3 ''C'', Schedule 1 ''D'']" 4
        "()" 0]
  have "sorted (map deadline (pop_ready_all (4::int)
     (run_ops [Schedule 5 ''A'', Schedule 3 ''B'', Schedule 3 ''C'', Schedule 1 ''D'']
        new_scheduler)))"
    by (elim conjE)
  ultimately show ?thesis by (intro conjI)
qed

section \<open>Readers and writers running together\<close>

text \<open>
  Modelled from the spec: the threads that write the object. Their code
  (\<^verbatim>\<open>concurrent.futures.Future\<close>) is not under \<^verbatim>\<open>src/\<close>. What the spec fixes:

  \<^item> the three resolving operations of section 4.2 (\<open>set_result\<close>, \<open>set_exception\<close>, \<open>cancel\<close>
    above) and the two other transitions of its state graph, \<open>PENDING\<close> to \<open>RUNNING\<close> and
    \<open>CANCELLED\<close> to \<open>CANCELLED_AND_NOTIFIED\<close>;
  \<^item> section 5: "the completion object's exclusion mechanism (lock/condition variable or
    equivalent) guards every field transition except the already-published terminal read fast
    path": a writer enters the mechanism, tests the state, writes, and leaves;
  \<^item> section 4.2: "the field that signals FINISHED must be written only after the
    result/error payload is fully populated": the payload is written first, the state second.

  Each attribute write is one atomic step, as each attribute read of a reader is. Steps of
  different threads interleave in any order and every thread sees the writes of the others at
  once (one memory, no reordering): the visibility the spec asks of the state flag is taken
  for granted.
\<close>

datatype ('v, 'e) writer_op =
    Resolve "('v, 'e) resolution"
  | Set_running
  | Notify_cancelled

text \<open>Modelled from the spec: the program points of a writer, in the order just given
  (enter, test the state, write the payload, write the state, leave).\<close>

datatype ('v, 'e) wpc =
    W_enter "('v, 'e) writer_op"      \<comment> \<open>about to enter the exclusion mechanism\<close>
  | W_check "('v, 'e) writer_op"      \<comment> \<open>inside: test the state\<close>
  | W_payload "('v, 'e) resolution"   \<comment> \<open>inside: write the result or the error\<close>
  | W_state string                    \<comment> \<open>inside: write the state\<close>
  | W_leave bool                      \<comment> \<open>leave; \<open>False\<close> when the operation failed\<close>
  | W_done bool

text \<open>
  Modelled from the spec: one step of a writer on the current memory (\<open>None\<close> when it waits
  for the exclusion mechanism or has finished). The tests are those of \<open>set_result\<close>,
  \<open>set_exception\<close> and \<open>cancel\<close> above; \<open>Set_running\<close> moves \<open>PENDING\<close> to \<open>RUNNING\<close> and
  \<open>Notify_cancelled\<close> moves \<open>CANCELLED\<close> to \<open>CANCELLED_AND_NOTIFIED\<close>, as in the spec's state
  graph.
\<close>

fun writer_step ::
  "('v, 'e) wpc \<Rightarrow> ('v, 'e) shared_future \<Rightarrow> (('v, 'e) wpc \<times> ('v, 'e) shared_future) option" where
  "writer_step (W_enter a) m =
     (if held m then None else Some (W_check a, m\<lparr>held := True\<rparr>))"
| "writer_step (W_check (Resolve Cancel)) m =
     (if state m \<in> {''PENDING'', ''RUNNING''} then Some (W_state ''CANCELLED'', m)
      else Some (W_leave False, m))"
| "writer_step (W_check (Resolve a)) m =
     (if terminal (state m) then Some (W_leave False, m) else Some (W_payload a, m))"
| "writer_step (W_check Set_running) m =
     (if state m = ''PENDING'' then Some (W_state ''RUNNING'', m)
      else Some (W_leave False, m))"
| "writer_step (W_check Notify_cancelled) m =
     (if state m = ''CANCELLED'' then Some (W_state ''CANCELLED_AND_NOTIFIED'', m)
      else Some (W_leave False, m))"
| "writer_step (W_payload (Set_result v)) m = Some (W_state ''FINISHED'', m\<lparr>result := v\<rparr>)"
| "writer_step (W_payload (Set_exception e)) m =
     Some (W_state ''FINISHED'', m\<lparr>exception := Some e\<rparr>)"
| "writer_step (W_payload Cancel) m = Some (W_state ''CANCELLED'', m)"
| "writer_step (W_state s) m = Some (W_leave True, m\<lparr>state := s\<rparr>)"
| "writer_step (W_leave ok) m = Some (W_done ok, m\<lparr>held := False\<rparr>)"
| "writer_step (W_done ok) m = None"

text \<open>A thread runs one call: a reader (either implementation) or a writer.\<close>

datatype ('v, 'e) thread = Reader "('v, 'e) pc" | Writer "('v, 'e) wpc"

fun thread_step ::
  "('v, 'e) thread \<Rightarrow> ('v, 'e) shared_future
     \<Rightarrow> (('v, 'e) thread \<times> ('v, 'e) shared_future) option" where
  "thread_step (Reader p) m = map_option (\<lambda>(p', m'). (Reader p', m')) (reader_step p m)"
| "thread_step (Writer w) m = map_option (\<lambda>(w', m'). (Writer w', m')) (writer_step w m)"

text \<open>One step of the system is one step of one thread that can move.\<close>

inductive step ::
  "('v, 'e) shared_future \<times> ('v, 'e) thread list
     \<Rightarrow> ('v, 'e) shared_future \<times> ('v, 'e) thread list \<Rightarrow> bool" where
  "i < length ts \<Longrightarrow> thread_step (ts ! i) m = Some (t', m') \<Longrightarrow> step (m, ts) (m', ts[i := t'])"

inductive steps ::
  "('v, 'e) shared_future \<times> ('v, 'e) thread list
     \<Rightarrow> ('v, 'e) shared_future \<times> ('v, 'e) thread list \<Rightarrow> bool" where
  steps_none: "steps c c"
| steps_more: "steps c c' \<Longrightarrow> step c' c'' \<Longrightarrow> steps c c''"

text \<open>Initially nobody is inside the exclusion mechanism and every thread is at the start of
  its call; the object is in any state.\<close>

fun at_entry :: "('v, 'e) thread \<Rightarrow> bool" where
  "at_entry (Reader Fast_check) = True"
| "at_entry (Reader Acquire) = True"
| "at_entry (Writer (W_enter a)) = True"
| "at_entry _ = False"

definition initial :: "('v, 'e) shared_future \<times> ('v, 'e) thread list \<Rightarrow> bool" where
  "initial c = (\<not> held (fst c) \<and> list_all at_entry (snd c))"

subsection \<open>The invariant\<close>

text \<open>
  \<open>inside\<close>: the thread is inside the exclusion mechanism. \<open>thread_ok\<close>: what a thread at its
  program point knows about the memory. A reader past a check that saw \<open>FINISHED\<close> knows that
  the state is still \<open>FINISHED\<close> and that what it has read is what the memory holds; a writer
  that is about to write knows that the state is not \<open>FINISHED\<close>.
\<close>

fun inside :: "('v, 'e) thread \<Rightarrow> bool" where
  "inside (Reader p) = in_block p"
| "inside (Writer (W_enter a)) = False"
| "inside (Writer (W_done ok)) = False"
| "inside (Writer _) = True"

fun thread_ok :: "('v, 'e) thread \<Rightarrow> ('v, 'e) shared_future \<Rightarrow> bool" where
  "thread_ok (Reader Fast_read_result) m = (state m = ''FINISHED'')"
| "thread_ok (Reader (Fast_read_exception r)) m = (state m = ''FINISHED'' \<and> r = result m)"
| "thread_ok (Reader Locked_read_result) m = (state m = ''FINISHED'')"
| "thread_ok (Reader (Locked_read_exception r)) m = (state m = ''FINISHED'' \<and> r = result m)"
| "thread_ok (Reader (Release (d, c, r, e))) m =
     (d \<and> \<not> c \<longrightarrow> state m = ''FINISHED'' \<and> r = result m \<and> e = exception m)"
| "thread_ok (Reader (Returned (d, c, r, e))) m =
     (d \<and> \<not> c \<longrightarrow> state m = ''FINISHED'' \<and> r = result m \<and> e = exception m)"
| "thread_ok (Writer (W_payload a)) m = (state m \<noteq> ''FINISHED'')"
| "thread_ok (Writer (W_state s)) m = (state m \<noteq> ''FINISHED'')"
| "thread_ok _ m = True"

definition same_data :: "('v, 'e) shared_future \<Rightarrow> ('v, 'e) shared_future \<Rightarrow> bool" where
  "same_data m m' = (state m' = state m \<and> result m' = result m \<and> exception m' = exception m)"

lemma thread_ok_same_data: "same_data m m' \<Longrightarrow> thread_ok t m' = thread_ok t m"
  by (induction t m rule: thread_ok.induct) (auto simp: same_data_def)

lemma reader_step_own:
  "reader_step p m = Some (p', m') \<Longrightarrow> thread_ok (Reader p) m \<Longrightarrow> thread_ok (Reader p') m'"
  by (cases p) (auto split: if_splits)

lemma writer_step_own:
  "writer_step w m = Some (w', m') \<Longrightarrow> thread_ok (Writer w) m \<Longrightarrow> thread_ok (Writer w') m'"
  by (induction w m rule: writer_step.induct) (auto simp: terminal_def split: if_splits)

lemma thread_step_own:
  "thread_step t m = Some (t', m') \<Longrightarrow> thread_ok t m \<Longrightarrow> thread_ok t' m'"
  by (cases t) (auto dest: reader_step_own writer_step_own)

lemma reader_step_data:
  "reader_step p m = Some (p', m') \<Longrightarrow> same_data m m'"
  by (cases p) (auto simp: same_data_def split: if_splits)

lemma writer_step_data:
  "writer_step w m = Some (w', m') \<Longrightarrow> thread_ok (Writer w) m \<Longrightarrow>
     same_data m m' \<or> (inside (Writer w) \<and> state m \<noteq> ''FINISHED'')"
  by (induction w m rule: writer_step.induct)
     (auto simp: same_data_def terminal_def split: if_splits)

lemma thread_step_data:
  "thread_step t m = Some (t', m') \<Longrightarrow> thread_ok t m \<Longrightarrow>
     same_data m m' \<or> (inside t \<and> state m \<noteq> ''FINISHED'')"
  by (cases t) (auto dest: reader_step_data writer_step_data)

lemma reader_step_lock:
  "reader_step p m = Some (p', m') \<Longrightarrow>
     (if in_block p then (if in_block p' then held m' = held m else \<not> held m')
      else (if in_block p' then \<not> held m \<and> held m' else held m' = held m))"
  by (cases p) (auto split: if_splits)

lemma writer_step_lock:
  "writer_step w m = Some (w', m') \<Longrightarrow>
     (if inside (Writer w) then (if inside (Writer w') then held m' = held m else \<not> held m')
      else (if inside (Writer w') then \<not> held m \<and> held m' else held m' = held m))"
  by (induction w m rule: writer_step.induct) (auto split: if_splits)

lemma thread_step_lock:
  "thread_step t m = Some (t', m') \<Longrightarrow>
     (if inside t then (if inside t' then held m' = held m else \<not> held m')
      else (if inside t' then \<not> held m \<and> held m' else held m' = held m))"
proof (cases t)
  case (Reader p)
  assume "thread_step t m = Some (t', m')"
  with Reader obtain p' where "reader_step p m = Some (p', m')" "t' = Reader p'" by auto
  with reader_step_lock [of p m p' m'] Reader show ?thesis by simp
next
  case (Writer w)
  assume "thread_step t m = Some (t', m')"
  with Writer obtain w' where "writer_step w m = Some (w', m')" "t' = Writer w'" by auto
  with writer_step_lock [of w m w' m'] Writer show ?thesis by simp
qed

lemma thread_ok_outside:
  "\<not> inside u \<Longrightarrow> thread_ok u m \<Longrightarrow> state m \<noteq> ''FINISHED'' \<Longrightarrow> thread_ok u m'"
  by (induction u m rule: thread_ok.induct) auto

definition invariant :: "('v, 'e) shared_future \<times> ('v, 'e) thread list \<Rightarrow> bool" where
  "invariant c =
     (case c of (m, ts) \<Rightarrow>
        (\<forall>i < length ts. thread_ok (ts ! i) m) \<and>
        (\<forall>i < length ts. inside (ts ! i) \<longrightarrow>
            held m \<and> (\<forall>j < length ts. inside (ts ! j) \<longrightarrow> j = i)))"

lemma at_entry_ok: "at_entry t \<Longrightarrow> thread_ok t m \<and> \<not> inside t"
  by (induction t rule: at_entry.induct) auto

lemma initial_invariant: "initial c \<Longrightarrow> invariant c"
proof -
  assume i: "initial c"
  obtain m ts where c: "c = (m, ts)" by (cases c)
  from i c have "\<And>i. i < length ts \<Longrightarrow> at_entry (ts ! i)"
    by (simp add: initial_def list_all_length)
  then have "\<And>i. i < length ts \<Longrightarrow> thread_ok (ts ! i) m \<and> \<not> inside (ts ! i)"
    by (rule at_entry_ok)
  then show ?thesis by (simp add: invariant_def c)
qed

lemma step_invariant:
  assumes "step c c'" and "invariant c"
  shows "invariant c'"
  using assms
proof (induction rule: step.induct)
  case (1 i ts m t' m')
  let ?ts' = "ts[i := t']"
  from "1.prems" have inv1: "\<forall>k < length ts. thread_ok (ts ! k) m"
    and inv2: "\<forall>k < length ts. inside (ts ! k) \<longrightarrow>
                 held m \<and> (\<forall>j < length ts. inside (ts ! j) \<longrightarrow> j = k)"
    by (simp_all add: invariant_def)
  from inv1 have ok: "\<And>k. k < length ts \<Longrightarrow> thread_ok (ts ! k) m" by simp
  from inv2 have hold: "\<And>k. k < length ts \<Longrightarrow> inside (ts ! k) \<Longrightarrow> held m" by simp
  from inv2 have excl: "\<And>k j. k < length ts \<Longrightarrow> inside (ts ! k) \<Longrightarrow> j < length ts \<Longrightarrow>
                 inside (ts ! j) \<Longrightarrow> j = k" by simp
  note st = "1.hyps"(2)
  have nth: "\<And>k. k < length ts \<Longrightarrow> ?ts' ! k = (if k = i then t' else ts ! k)"
    by (simp add: nth_list_update)
  have ok': "\<forall>k < length ?ts'. thread_ok (?ts' ! k) m'"
  proof (intro allI impI)
    fix k assume "k < length ?ts'"
    then have k: "k < length ts" by simp
    show "thread_ok (?ts' ! k) m'"
    proof (cases "k = i")
      case True
      with thread_step_own [OF st ok [OF "1.hyps"(1)]] k show ?thesis by (simp add: nth)
    next
      case False
      from thread_step_data [OF st ok [OF "1.hyps"(1)]]
      have "thread_ok (ts ! k) m'"
      proof
        assume "same_data m m'"
        from thread_ok_same_data [OF this, of "ts ! k"] ok [OF k] show ?thesis by simp
      next
        assume a: "inside (ts ! i) \<and> state m \<noteq> ''FINISHED''"
        with excl [OF "1.hyps"(1) _ k] False have "\<not> inside (ts ! k)" by blast
        from this ok [OF k] show ?thesis
        proof (rule thread_ok_outside)
          from a show "state m \<noteq> ''FINISHED''" ..
        qed
      qed
      with False k show ?thesis by (simp add: nth)
    qed
  qed
  note lk0 = thread_step_lock [OF st]
  have lk1: "inside (ts ! i) \<Longrightarrow> inside t' \<Longrightarrow> held m' = held m"
    and lk2: "inside (ts ! i) \<Longrightarrow> \<not> inside t' \<Longrightarrow> \<not> held m'"
    and lk3: "\<not> inside (ts ! i) \<Longrightarrow> inside t' \<Longrightarrow> \<not> held m \<and> held m'"
    and lk4: "\<not> inside (ts ! i) \<Longrightarrow> \<not> inside t' \<Longrightarrow> held m' = held m"
    using lk0 by simp_all
  have excl': "\<forall>k < length ?ts'. inside (?ts' ! k) \<longrightarrow>
            held m' \<and> (\<forall>j < length ?ts'. inside (?ts' ! j) \<longrightarrow> j = k)"
  proof (intro allI impI)
    fix k assume kl: "k < length ?ts'" and ki: "inside (?ts' ! k)"
    then have k: "k < length ts" by simp
    have others: "\<And>j. j < length ts \<Longrightarrow> j \<noteq> i \<Longrightarrow> inside (ts ! j) \<Longrightarrow>
                    \<not> inside (ts ! i) \<and> held m"
      using excl [OF "1.hyps"(1)] hold by blast
    have h: "held m'"
    proof (cases "k = i")
      case True
      with ki k have it: "inside t'" by (simp add: nth)
      show ?thesis
      proof (cases "inside (ts ! i)")
        case True
        with lk1 it hold [OF "1.hyps"(1)] show ?thesis by simp
      next
        case False
        with lk3 it show ?thesis by simp
      qed
    next
      case False
      with ki k have ik: "inside (ts ! k)" by (simp add: nth)
      from others [OF k False ik] have ni: "\<not> inside (ts ! i)" and hm: "held m" by simp_all
      from lk3 [OF ni] hm have "\<not> inside t'" by blast
      from lk4 [OF ni this] hm show ?thesis by simp
    qed
    have u: "\<forall>j < length ?ts'. inside (?ts' ! j) \<longrightarrow> j = k"
    proof (intro allI impI)
      fix j assume "j < length ?ts'" and ji: "inside (?ts' ! j)"
      then have j: "j < length ts" by simp
      show "j = k"
      proof (cases "j = i")
        case ji': True
        show ?thesis
        proof (cases "k = i")
          case True with ji' show ?thesis by simp
        next
          case False
          with ki k have ik: "inside (ts ! k)" by (simp add: nth)
          from ji ji' j have it: "inside t'" by (simp add: nth)
          from others [OF k False ik] have ni: "\<not> inside (ts ! i)" and hm: "held m" by simp_all
          from lk3 [OF ni it] hm show ?thesis by simp
        qed
      next
        case False
        with ji j have ij: "inside (ts ! j)" by (simp add: nth)
        show ?thesis
        proof (cases "k = i")
          case True
          with ki k have it: "inside t'" by (simp add: nth)
          from others [OF j False ij] have ni: "\<not> inside (ts ! i)" and hm: "held m" by simp_all
          from lk3 [OF ni it] hm show ?thesis by simp
        next
          case F: False
          with ki k have "inside (ts ! k)" by (simp add: nth)
          with excl [OF k _ j ij] show ?thesis by simp
        qed
      qed
    qed
    from h u show "held m' \<and> (\<forall>j < length ?ts'. inside (?ts' ! j) \<longrightarrow> j = k)" ..
  qed
  from ok' excl' show ?case by (simp add: invariant_def)
qed

lemma steps_invariant: "steps c c' \<Longrightarrow> invariant c \<Longrightarrow> invariant c'"
  by (induction rule: steps.induct) (auto intro: step_invariant)

lemma returned_stays:
  "steps c c' \<Longrightarrow> i < length (snd c) \<Longrightarrow> snd c ! i = Reader (Returned t) \<Longrightarrow>
     i < length (snd c') \<and> snd c' ! i = Reader (Returned t)"
proof (induction rule: steps.induct)
  case (steps_none c)
  then show ?case by simp
next
  case (steps_more c c' c'')
  then have i: "i < length (snd c')" "snd c' ! i = Reader (Returned t)" by simp_all
  from steps_more.hyps(2) i show ?case
    by (induction rule: step.induct) (auto simp: nth_list_update)
qed

text \<open>An execution given by its schedule, the list of the indices of the threads that take
  the steps (an index that is out of range or whose thread cannot move is passed over).\<close>

fun run_schedule ::
  "nat list \<Rightarrow> ('v, 'e) shared_future \<times> ('v, 'e) thread list
     \<Rightarrow> ('v, 'e) shared_future \<times> ('v, 'e) thread list" where
  "run_schedule [] c = c"
| "run_schedule (i # is) (m, ts) =
     (if i < length ts then
        (case thread_step (ts ! i) m of
           None \<Rightarrow> run_schedule is (m, ts)
         | Some (t', m') \<Rightarrow> run_schedule is (m', ts[i := t']))
      else run_schedule is (m, ts))"

lemma steps_trans: "steps c' c'' \<Longrightarrow> steps c c' \<Longrightarrow> steps c c''"
  by (induction rule: steps.induct) (auto intro: steps.intros)

lemma step_steps: "step c c' \<Longrightarrow> steps c c'"
  by (rule steps_more [OF steps_none])

lemma run_schedule_steps: "steps c (run_schedule is c)"
proof (induction "is" arbitrary: c)
  case Nil
  show ?case by (simp add: steps_none)
next
  case (Cons i "is")
  obtain m ts where c: "c = (m, ts)" by (cases c)
  show ?case
  proof (cases "i < length ts")
    case False
    with c Cons.IH [of c] show ?thesis by simp
  next
    case True
    show ?thesis
    proof (cases "thread_step (ts ! i) m")
      case None
      with True c Cons.IH [of c] show ?thesis by simp
    next
      case (Some a)
      obtain t' m' where a: "a = (t', m')" by (cases a)
      from True Some a have "step (m, ts) (m', ts[i := t'])" by (intro step.intros) auto
      then have "steps (m, ts) (m', ts[i := t'])" by (rule step_steps)
      with Cons.IH [of "(m', ts[i := t'])"]
      have "steps (m, ts) (run_schedule is (m', ts[i := t']))" by (rule steps_trans)
      with True Some a c show ?thesis by simp
    qed
  qed
qed

text \<open>A writer that runs alone does what the operation of the previous sections does.\<close>

lemma writer_alone:
  "\<not> held m \<Longrightarrow>
     run_schedule [0, 0, 0, 0, 0] (m, [Writer (W_enter (Resolve a))])
       = (snd (attempt a m), [Writer (W_done (fst (attempt a m)))])"
  by (cases a)
     (auto simp: set_result_def set_exception_def cancel_def terminal_def)

lemma steps_length: "steps c c' \<Longrightarrow> length (snd c') = length (snd c)"
proof (induction rule: steps.induct)
  case (steps_none c)
  show ?case by simp
next
  case (steps_more c c' c'')
  from steps_more.hyps(2) have "length (snd c'') = length (snd c')"
    by (induction rule: step.induct) simp
  with steps_more.IH show ?case by simp
qed

lemma invariant_returned:
  assumes "invariant (m, ts)" "i < length ts" "ts ! i = Reader (Returned (True, False, r, e))"
  shows "state m = ''FINISHED'' \<and> result m = r \<and> exception m = e"
proof -
  from assms(1,2) have "thread_ok (ts ! i) m" by (simp add: invariant_def)
  with assms(3) show ?thesis by simp
qed

text \<open>
  C4. With readers and resolving writers running together, in every interleaving: a reader
  that returns "done, not cancelled" returns the value and error that the memory holds under
  state \<open>FINISHED\<close> at that moment, and at every later moment the memory still holds that
  state and that payload, so that every reader that returns "done, not cancelled", then or
  later, returns the same pair. No reader returns a \<open>FINISHED\<close> snapshot whose payload is not
  the final one.
\<close>

theorem finished_snapshot_is_final:
  assumes "initial c0" and "steps c0 (m, ts)"
    and "i < length ts" and "ts ! i = Reader (Returned (True, False, r, e))"
    and "steps (m, ts) (m', ts')"
  shows "state m = ''FINISHED'' \<and> result m = r \<and> exception m = e \<and>
         state m' = ''FINISHED'' \<and> result m' = r \<and> exception m' = e \<and>
         (\<forall>j < length ts'. \<forall>r' e'. ts' ! j = Reader (Returned (True, False, r', e')) \<longrightarrow>
              r' = r \<and> e' = e)"
proof -
  from assms(1) have "invariant c0" by (rule initial_invariant)
  with assms(2) have inv: "invariant (m, ts)" by (rule steps_invariant)
  with assms(5) have inv': "invariant (m', ts')" by (rule steps_invariant)
  from invariant_returned [OF inv assms(3,4)]
  have now: "state m = ''FINISHED'' \<and> result m = r \<and> exception m = e" .
  from returned_stays [OF assms(5)] assms(3,4)
  have "i < length ts'" "ts' ! i = Reader (Returned (True, False, r, e))" by simp_all
  from invariant_returned [OF inv' this]
  have later: "state m' = ''FINISHED'' \<and> result m' = r \<and> exception m' = e" .
  have "\<forall>j < length ts'. \<forall>r' e'. ts' ! j = Reader (Returned (True, False, r', e')) \<longrightarrow>
              r' = r \<and> e' = e"
  proof (intro allI impI)
    fix j r' e' assume "j < length ts'" "ts' ! j = Reader (Returned (True, False, r', e'))"
    from invariant_returned [OF inv' this] later show "r' = r \<and> e' = e" by simp
  qed
  with now later show ?thesis by simp
qed

theorem finished_snapshot_is_final_witness:
  "initial (\<lparr>state = ''PENDING'', result = None :: int option,
              exception = None :: string option, held = False\<rparr>,
            [Reader Fast_check, Writer (W_enter (Resolve (Set_result (Some 42)))),
             Reader Acquire]) \<and>
   steps (\<lparr>state = ''PENDING'', result = None :: int option,
            exception = None :: string option, held = False\<rparr>,
          [Reader Fast_check, Writer (W_enter (Resolve (Set_result (Some 42)))),
           Reader Acquire])
         (\<lparr>state = ''FINISHED'', result = Some 42, exception = None, held = True\<rparr>,
          [Reader (Returned (True, False, Some 42, None)), Writer (W_leave True),
           Reader Acquire]) \<and>
   steps (\<lparr>state = ''FINISHED'', result = Some (42::int), exception = None :: string option,
            held = True\<rparr>,
          [Reader (Returned (True, False, Some 42, None)), Writer (W_leave True),
           Reader Acquire])
         (\<lparr>state = ''FINISHED'', result = Some 42, exception = None, held = False\<rparr>,
          [Reader (Returned (True, False, Some 42, None)), Writer (W_done True),
           Reader (Returned (True, False, Some 42, None))]) \<and>
   state \<lparr>state = ''FINISHED'', result = Some (42::int), exception = None :: string option,
          held = True\<rparr> = ''FINISHED''"
proof -
  let ?m0 = "\<lparr>state = ''PENDING'', result = None :: int option,
              exception = None :: string option, held = False\<rparr>"
  let ?ts0 = "[Reader Fast_check, Writer (W_enter (Resolve (Set_result (Some (42::int))))),
               Reader Acquire] :: (int, string) thread list"
  let ?m1 = "\<lparr>state = ''FINISHED'', result = Some (42::int),
              exception = None :: string option, held = True\<rparr>"
  let ?ts1 = "[Reader (Returned (True, False, Some (42::int), None)), Writer (W_leave True),
               Reader Acquire] :: (int, string) thread list"
  let ?m2 = "\<lparr>state = ''FINISHED'', result = Some (42::int),
              exception = None :: string option, held = False\<rparr>"
  let ?ts2 = "[Reader (Returned (True, False, Some (42::int), None)), Writer (W_done True),
               Reader (Returned (True, False, Some 42, None))] :: (int, string) thread list"
  have i: "initial (?m0, ?ts0)" by (simp add: initial_def)
  have "run_schedule [1, 1, 1, 1, 0, 0, 0] (?m0, ?ts0) = (?m1, ?ts1)" by code_simp
  with run_schedule_steps [of "(?m0, ?ts0)" "[1, 1, 1, 1, 0, 0, 0]"]
  have a: "steps (?m0, ?ts0) (?m1, ?ts1)" by simp
  have "run_schedule [2, 1, 2, 2, 2, 2, 2] (?m1, ?ts1) = (?m2, ?ts2)" by code_simp
  with run_schedule_steps [of "(?m1, ?ts1)" "[2, 1, 2, 2, 2, 2, 2]"]
  have b: "steps (?m1, ?ts1) (?m2, ?ts2)" by simp
  have l: "0 < length ?ts1" "?ts1 ! 0 = Reader (Returned (True, False, Some 42, None))"
    by simp_all
  from finished_snapshot_is_final [OF i a l b] i a b show ?thesis by blast
qed

section \<open>A reader whose fast check misses \<open>FINISHED\<close>\<close>

text \<open>
  The lockless reader among the threads of the previous section. While a reader is inside
  the with block it holds the exclusion mechanism, so that no writer is inside and the state,
  the result and the error stay as they are; what the reader will return is then fixed by
  the memory it found on entering.
\<close>

lemma outcome_same_data:
  "same_data m m' \<Longrightarrow> outcome p m' = outcome p m"
  by (cases p) (auto simp: same_data_def get_snapshot_with_lock_def)

lemma step_inside_outcome:
  assumes inv: "invariant (m, ts)" and st: "step (m, ts) (m', ts')"
    and i: "i < length ts" and p: "ts ! i = Reader p" and b: "in_block p \<or> has_returned p"
  shows "\<exists>p'. ts' ! i = Reader p' \<and> (in_block p' \<or> has_returned p') \<and>
              outcome p' m' = outcome p m"
  using st
proof (cases rule: step.cases)
  case (1 j t')
  from inv have ok: "\<forall>k < length ts. thread_ok (ts ! k) m"
    and excl: "\<forall>k < length ts. inside (ts ! k) \<longrightarrow>
                 held m \<and> (\<forall>l < length ts. inside (ts ! l) \<longrightarrow> l = k)"
    by (simp_all add: invariant_def)
  show ?thesis
  proof (cases "j = i")
    case True
    with 1 p obtain p' where r: "reader_step p m = Some (p', m')" and t': "t' = Reader p'"
      by auto
    from reader_step_in_block [OF r b] 1 True i t' show ?thesis by simp
  next
    case False
    with 1 i p have same: "ts' ! i = Reader p" by simp
    show ?thesis
    proof (cases "in_block p")
      case True
      with p have ii: "inside (ts ! i)" by simp
      from ok 1(2) have "thread_ok (ts ! j) m" by simp
      from thread_step_data [OF 1(3) this]
      have "same_data m m'"
      proof
        assume "same_data m m'" then show ?thesis .
      next
        assume "inside (ts ! j) \<and> state m \<noteq> ''FINISHED''"
        with excl i ii 1(2) have "j = i" by blast
        with False show ?thesis by simp
      qed
      with same b show ?thesis by (simp add: outcome_same_data)
    next
      case F: False
      with b have "has_returned p" by simp
      then obtain t where "p = Returned t" by (cases p) auto
      with same show ?thesis by simp
    qed
  qed
qed

lemma steps_inside_outcome:
  assumes "steps c c'" and "invariant c" and "i < length (snd c)" and "snd c ! i = Reader p"
    and "in_block p \<or> has_returned p"
  shows "\<exists>p'. snd c' ! i = Reader p' \<and> (in_block p' \<or> has_returned p') \<and>
              outcome p' (fst c') = outcome p (fst c)"
  using assms
proof (induction rule: steps.induct)
  case (steps_none c)
  then show ?case by simp
next
  case (steps_more c c' c'')
  then obtain p' where p': "snd c' ! i = Reader p'" "in_block p' \<or> has_returned p'"
    "outcome p' (fst c') = outcome p (fst c)" by blast
  from steps_more.hyps(1) steps_more.prems(1) have inv': "invariant c'"
    by (rule steps_invariant)
  from steps_length [OF steps_more.hyps(1)] steps_more.prems(2) have i': "i < length (snd c')"
    by simp
  obtain m' ts' where c': "c' = (m', ts')" by (cases c')
  obtain m'' ts'' where c'': "c'' = (m'', ts'')" by (cases c'')
  from step_inside_outcome [of m' ts' m'' ts'' i p'] inv' steps_more.hyps(2) i' p' c' c''
  obtain p'' where "ts'' ! i = Reader p''" "in_block p'' \<or> has_returned p''"
    "outcome p'' m'' = outcome p' m'" by auto
  with p'(3) c' c'' show ?case by auto
qed

lemma acquire_step:
  assumes "step (m, ts) (m1, ts1)" and "i < length ts" and "ts ! i = Reader Acquire"
    and "ts1 ! i \<noteq> Reader Acquire"
  shows "\<not> held m \<and> m1 = m\<lparr>held := True\<rparr> \<and> ts1 ! i = Reader Locked_check_finished"
  using assms(1)
proof (cases rule: step.cases)
  case (1 j t')
  show ?thesis
  proof (cases "j = i")
    case True
    with 1 assms(2,3) show ?thesis by (auto split: if_splits)
  next
    case False
    with 1 assms(2,3,4) show ?thesis by simp
  qed
qed

lemma fast_check_step:
  assumes "step (m, ts) (m1, ts1)" and "i < length ts" and "ts ! i = Reader Fast_check"
    and "ts1 ! i \<noteq> Reader Fast_check" and "state m \<noteq> ''FINISHED''"
  shows "m1 = m \<and> ts1 ! i = Reader Acquire"
  using assms(1)
proof (cases rule: step.cases)
  case (1 j t')
  show ?thesis
  proof (cases "j = i")
    case True
    with 1 assms(2,3,5) show ?thesis by auto
  next
    case False
    with 1 assms(2,3,4) show ?thesis by simp
  qed
qed

lemma step_length: "step c c' \<Longrightarrow> length (snd c') = length (snd c)"
  by (induction rule: step.induct) simp

lemma acquire_on_the_way:
  assumes "steps c c'" and "i < length (snd c)" and "snd c ! i = Reader Acquire"
  shows "snd c' ! i = Reader Acquire \<or>
         (\<exists>m ts m1 ts1. steps c (m, ts) \<and> ts ! i = Reader Acquire \<and>
              step (m, ts) (m1, ts1) \<and> ts1 ! i \<noteq> Reader Acquire \<and> steps (m1, ts1) c')"
  using assms
proof (induction rule: steps.induct)
  case (steps_none c)
  then show ?case by simp
next
  case (steps_more c c' c'')
  from steps_more.IH [OF steps_more.prems]
  show ?case
  proof
    assume a: "snd c' ! i = Reader Acquire"
    show ?thesis
    proof (cases "snd c'' ! i = Reader Acquire")
      case True then show ?thesis by simp
    next
      case False
      obtain m ts where c': "c' = (m, ts)" by (cases c')
      obtain m1 ts1 where c'': "c'' = (m1, ts1)" by (cases c'')
      from steps_more.hyps(1,2) a False c' c''
      have "steps c (m, ts) \<and> ts ! i = Reader Acquire \<and> step (m, ts) (m1, ts1) \<and>
            ts1 ! i \<noteq> Reader Acquire \<and> steps (m1, ts1) c''"
        by (simp add: steps_none)
      then show ?thesis by blast
    qed
  next
    assume "\<exists>m ts m1 ts1. steps c (m, ts) \<and> ts ! i = Reader Acquire \<and>
              step (m, ts) (m1, ts1) \<and> ts1 ! i \<noteq> Reader Acquire \<and> steps (m1, ts1) c'"
    then obtain m ts m1 ts1 where d: "steps c (m, ts)" "ts ! i = Reader Acquire"
      "step (m, ts) (m1, ts1)" "ts1 ! i \<noteq> Reader Acquire" "steps (m1, ts1) c'" by blast
    from d(5) steps_more.hyps(2) have "steps (m1, ts1) c''" by (rule steps.steps_more)
    with d show ?thesis by blast
  qed
qed

lemma reader_runs_through:
  assumes "i < length ts" and "ts ! i = Reader Acquire" and "\<not> held m"
  shows "run_schedule [i, i, i, i, i] (m, ts)
           = (m, ts[i := Reader (Returned (fst (get_snapshot_with_lock m)))])"
  using assms by (simp add: get_snapshot_with_lock_def)

text \<open>
  C3. In the lockless reader, a call whose unlocked check does not see \<open>FINISHED\<close> goes on
  to the with block, with the memory untouched, and cannot return without entering it. In
  every execution, whatever the other threads do in between, the tuple it returns is the
  locked snapshot of the memory \<open>m\<close> at which it entered the block: the state is checked
  again inside. In particular, if the state has become \<open>FINISHED\<close> between the fast check and
  the entry, the call returns \<open>(True, False, result, error)\<close> and not a stale not-done tuple.
  And once the mechanism is free, five steps of the reader take it through the block to the
  return of that snapshot.
\<close>

theorem lockless_rechecks_inside_block:
  assumes "initial c0" and "steps c0 (mf, tsf)"
    and "i < length tsf" and "tsf ! i = Reader lockless_entry"
    and "state mf \<noteq> ''FINISHED''"
    and "step (mf, tsf) (ma, tsa)" and "tsa ! i \<noteq> Reader lockless_entry"
    and "steps (ma, tsa) (m', ts')" and "ts' ! i = Reader (Returned t)"
  shows "ma = mf \<and> tsa ! i = Reader Acquire \<and>
     (\<exists>m ts m1 ts1. steps (ma, tsa) (m, ts) \<and> ts ! i = Reader Acquire \<and> \<not> held m \<and>
          step (m, ts) (m1, ts1) \<and> ts1 ! i = Reader Locked_check_finished \<and>
          m1 = m\<lparr>held := True\<rparr> \<and> steps (m1, ts1) (m', ts')) \<and>
     (\<forall>m ts m1 ts1.
          steps (ma, tsa) (m, ts) \<longrightarrow> ts ! i = Reader Acquire \<longrightarrow>
          step (m, ts) (m1, ts1) \<longrightarrow> ts1 ! i \<noteq> Reader Acquire \<longrightarrow>
          steps (m1, ts1) (m', ts') \<longrightarrow>
            t = fst (get_snapshot_with_lock m) \<and>
            (state m = ''FINISHED'' \<longrightarrow> t = (True, False, result m, exception m))) \<and>
     (\<forall>m ts. i < length ts \<longrightarrow> ts ! i = Reader Acquire \<longrightarrow> \<not> held m \<longrightarrow>
          run_schedule [i, i, i, i, i] (m, ts)
            = (m, ts[i := Reader (Returned (fst (get_snapshot_with_lock m)))]))"
proof -
  from fast_check_step [OF assms(6,3)] assms(4,5,7)
  have fc: "ma = mf" "tsa ! i = Reader Acquire" by (simp_all add: lockless_entry_def)
  from step_length [OF assms(6)] assms(3) have ia: "i < length tsa" by simp
  have inv0: "invariant c0" using assms(1) by (rule initial_invariant)
  have invf: "invariant (mf, tsf)" using assms(2) inv0 by (rule steps_invariant)
  have inva: "invariant (ma, tsa)" using assms(6) invf by (rule step_invariant)
  have univ: "t = fst (get_snapshot_with_lock m) \<and>
            (state m = ''FINISHED'' \<longrightarrow> t = (True, False, result m, exception m))"
    if d: "steps (ma, tsa) (m, ts)" "ts ! i = Reader Acquire" "step (m, ts) (m1, ts1)"
      "ts1 ! i \<noteq> Reader Acquire" "steps (m1, ts1) (m', ts')" for m ts m1 ts1
  proof -
    from steps_length [OF d(1)] ia have il: "i < length ts" by simp
    from acquire_step [OF d(3) il d(2,4)]
    have a: "m1 = m\<lparr>held := True\<rparr>" "ts1 ! i = Reader Locked_check_finished" by simp_all
    have "invariant (m, ts)" using d(1) inva by (rule steps_invariant)
    with d(3) have inv1: "invariant (m1, ts1)" by (rule step_invariant)
    from step_length [OF d(3)] il have il1: "i < length ts1" by simp
    from steps_inside_outcome [OF d(5) inv1, of i Locked_check_finished] il1 a(2)
    obtain p' where "ts' ! i = Reader p'" "outcome p' m' = outcome Locked_check_finished m1"
      by auto
    with assms(9) have "t = fst (get_snapshot_with_lock m1)" by simp
    with a(1) have "t = fst (get_snapshot_with_lock m)"
      by (simp add: get_snapshot_with_lock_def)
    then show ?thesis by (simp add: get_snapshot_with_lock_def)
  qed
  from acquire_on_the_way [OF assms(8), of i] ia fc(2) assms(9)
  obtain m ts m1 ts1 where d: "steps (ma, tsa) (m, ts)" "ts ! i = Reader Acquire"
      "step (m, ts) (m1, ts1)" "ts1 ! i \<noteq> Reader Acquire" "steps (m1, ts1) (m', ts')"
    by auto
  from steps_length [OF d(1)] ia have il: "i < length ts" by simp
  from acquire_step [OF d(3) il d(2,4)] d
  have ex: "\<exists>m ts m1 ts1. steps (ma, tsa) (m, ts) \<and> ts ! i = Reader Acquire \<and> \<not> held m \<and>
          step (m, ts) (m1, ts1) \<and> ts1 ! i = Reader Locked_check_finished \<and>
          m1 = m\<lparr>held := True\<rparr> \<and> steps (m1, ts1) (m', ts')"
    by blast
  have run: "\<forall>m ts. i < length ts \<longrightarrow> ts ! i = Reader Acquire \<longrightarrow> \<not> held m \<longrightarrow>
          run_schedule [i, i, i, i, i] (m, ts)
            = (m, ts[i := Reader (Returned (fst (get_snapshot_with_lock m)))])"
    using reader_runs_through by blast
  from fc ex univ run show ?thesis by blast
qed

theorem lockless_rechecks_inside_block_witness:
  "initial (\<lparr>state = ''PENDING'', result = None :: int option,
              exception = None :: string option, held = False\<rparr>,
            [Reader lockless_entry, Writer (W_enter (Resolve (Set_result (Some 42))))]) \<and>
   step (\<lparr>state = ''PENDING'', result = None :: int option,
           exception = None :: string option, held = False\<rparr>,
         [Reader lockless_entry, Writer (W_enter (Resolve (Set_result (Some 42))))])
        (\<lparr>state = ''PENDING'', result = None, exception = None, held = False\<rparr>,
         [Reader Acquire, Writer (W_enter (Resolve (Set_result (Some 42))))]) \<and>
   steps (\<lparr>state = ''PENDING'', result = None :: int option,
            exception = None :: string option, held = False\<rparr>,
          [Reader Acquire, Writer (W_enter (Resolve (Set_result (Some 42))))])
         (\<lparr>state = ''FINISHED'', result = Some 42, exception = None, held = False\<rparr>,
          [Reader Acquire, Writer (W_done True)]) \<and>
   step (\<lparr>state = ''FINISHED'', result = Some (42::int), exception = None :: string option,
           held = False\<rparr>,
         [Reader Acquire, Writer (W_done True)])
        (\<lparr>state = ''FINISHED'', result = Some 42, exception = None, held = True\<rparr>,
         [Reader Locked_check_finished, Writer (W_done True)]) \<and>
   steps (\<lparr>state = ''FINISHED'', result = Some (42::int), exception = None :: string option,
            held = True\<rparr>,
          [Reader Locked_check_finished, Writer (W_done True)])
         (\<lparr>state = ''FINISHED'', result = Some 42, exception = None, held = False\<rparr>,
          [Reader (Returned (True, False, Some 42, None)), Writer (W_done True)]) \<and>
   (True, False, Some (42::int), None :: string option)
     = fst (get_snapshot_with_lock
             \<lparr>state = ''FINISHED'', result = Some (42::int), exception = None :: string option,
                held = False\<rparr>)"
proof -
  let ?w = "Writer (W_enter (Resolve (Set_result (Some (42::int))))) :: (int, string) thread"
  let ?d = "Writer (W_done True) :: (int, string) thread"
  let ?t = "(True, False, Some (42::int), None :: string option)"
  let ?m0 = "\<lparr>state = ''PENDING'', result = None :: int option,
              exception = None :: string option, held = False\<rparr>"
  let ?g = "\<lparr>state = ''FINISHED'', result = Some (42::int),
             exception = None :: string option, held = False\<rparr>"
  let ?g1 = "\<lparr>state = ''FINISHED'', result = Some (42::int),
              exception = None :: string option, held = True\<rparr>"
  let ?ts0 = "[Reader lockless_entry, ?w]"
  let ?tsa = "[Reader Acquire, ?w]"
  let ?tsg = "[Reader Acquire, ?d]"
  let ?tsg1 = "[Reader Locked_check_finished, ?d]"
  let ?ts' = "[Reader (Returned ?t), ?d]"
  have i: "initial (?m0, ?ts0)" by (simp add: initial_def lockless_entry_def)
  have s0: "steps (?m0, ?ts0) (?m0, ?ts0)" by (rule steps_none)
  have f: "step (?m0, ?ts0) (?m0, ?tsa)"
    using step.intros [of 0 ?ts0 ?m0 "Reader Acquire" ?m0] by (simp add: lockless_entry_def)
  have "run_schedule [1, 1, 1, 1, 1] (?m0, ?tsa) = (?g, ?tsg)" by code_simp
  with run_schedule_steps [of "(?m0, ?tsa)" "[1, 1, 1, 1, 1]"]
  have a: "steps (?m0, ?tsa) (?g, ?tsg)" by simp
  have q: "step (?g, ?tsg) (?g1, ?tsg1)"
    using step.intros [of 0 ?tsg ?g "Reader Locked_check_finished" ?g1] by simp
  have "run_schedule [0, 0, 0, 0] (?g1, ?tsg1) = (?g, ?ts')" by code_simp
  with run_schedule_steps [of "(?g1, ?tsg1)" "[0, 0, 0, 0]"]
  have b: "steps (?g1, ?tsg1) (?g, ?ts')" by simp
  from b q have "steps (?g, ?tsg) (?g, ?ts')"
    by (intro steps_trans [OF b] step_steps)
  with a have r: "steps (?m0, ?tsa) (?g, ?ts')" by (intro steps_trans [OF _ a])
  have h: "(0::nat) < length ?ts0" "?ts0 ! 0 = Reader lockless_entry"
    "state ?m0 \<noteq> ''FINISHED''" "?tsa ! 0 \<noteq> Reader lockless_entry"
    "?ts' ! 0 = Reader (Returned ?t)" "?tsg ! 0 = Reader Acquire"
    "?tsg1 ! 0 \<noteq> Reader Acquire"
    by (simp_all add: lockless_entry_def)
  from lockless_rechecks_inside_block [OF i s0 h(1,2,3) f h(4) r h(5)]
  have "\<forall>m ts m1 ts1.
          steps (?m0, ?tsa) (m, ts) \<longrightarrow> ts ! 0 = Reader Acquire \<longrightarrow>
          step (m, ts) (m1, ts1) \<longrightarrow> ts1 ! 0 \<noteq> Reader Acquire \<longrightarrow>
          steps (m1, ts1) (?g, ?ts') \<longrightarrow>
            ?t = fst (get_snapshot_with_lock m)"
    by blast
  with a h(6) q h(7) b have "?t = fst (get_snapshot_with_lock ?g)" by blast
  with i f a q b show ?thesis by (intro conjI)
qed

end
